theory Spec2Isabelle
  imports Main "HOL-Library.Multiset" "HOL-Library.AList" "HOL-Library.Char_ord"
    "HOL-Library.List_Lexorder"
begin

chapter \<open>The model\<close>

section \<open>Strings\<close>

text \<open>
  A Python \<open>str\<close> is a \<open>string\<close>; a \<open>char\<close> stands for a code point below 256.
  \<open>isspace\<close> is \<open>str.isspace\<close> on these code points: tab to carriage return (9-13), the
  separators 28-31, the blank (32), NEL (133) and the no-break space (160).
  \<open>strip\<close> is \<open>str.strip()\<close> without argument: it drops the leading and the trailing run
  of whitespace.
\<close>

definition isspace :: "char \<Rightarrow> bool" where
  "isspace c = (let n = (of_char c :: nat) in
     (9 \<le> n \<and> n \<le> 13) \<or> (28 \<le> n \<and> n \<le> 32) \<or> n = 133 \<or> n = 160)"

definition strip :: "string \<Rightarrow> string" where
  "strip s = rev (dropWhile isspace (rev (dropWhile isspace s)))"

section \<open>StateClassifier: \<open>map_world_to_state\<close> (build_state_and_planner.py)\<close>

text \<open>
  The three arguments are stripped first; then the chain of \<open>if\<close>s of the source, in
  its order. The function has no branch that raises.
\<close>

definition map_world_to_state :: "string \<Rightarrow> string \<Rightarrow> string \<Rightarrow> string" where
  "map_world_to_state a0 y0 l0 =
     (let a = strip a0; y = strip y0; l = strip l0 in
      if y = ''ped'' then
        (if a = ''stop'' then ''STOP_PED'' else ''YIELD_PED'')
      else if y = ''lead'' then
        (if l = ''stopped'' then
           (if a = ''stop'' then ''STOP_LEAD'' else ''FOLLOW_QUEUE'')
         else
           (if a = ''go'' then ''GO_FOLLOW'' else ''FOLLOW_QUEUE''))
      else if a = ''go'' \<and> y = ''none'' then
        (if l \<in> set [''none'', ''''] then ''GO_FREE'' else ''GO'')
      else if a = ''wait'' \<and> y = ''none'' then ''NEGOTIATE''
      else ''UNKNOWN'')"

text \<open>
  The classifier as section 4.4 of the specification words it: six rules on the triple as
  given, the first match winning.
\<close>

definition spec_classify :: "string \<Rightarrow> string \<Rightarrow> string \<Rightarrow> string" where
  "spec_classify affordance yield_to lead_state =
     (if yield_to = ''ped'' then
        (if affordance = ''stop'' then ''STOP_PED'' else ''YIELD_PED'')
      else if yield_to = ''lead'' \<and> lead_state = ''stopped'' then
        (if affordance = ''stop'' then ''STOP_LEAD'' else ''FOLLOW_QUEUE'')
      else if yield_to = ''lead'' then
        (if affordance = ''go'' then ''GO_FOLLOW'' else ''FOLLOW_QUEUE'')
      else if affordance = ''go'' \<and> yield_to = ''none'' then
        (if lead_state = ''none'' \<or> lead_state = '''' then ''GO_FREE'' else ''GO'')
      else if affordance = ''wait'' \<and> yield_to = ''none'' then ''NEGOTIATE''
      else ''UNKNOWN'')"

definition all_states :: "string list" where
  "all_states = [''STOP_PED'', ''YIELD_PED'', ''STOP_LEAD'', ''FOLLOW_QUEUE'', ''GO_FOLLOW'',
     ''GO_FREE'', ''GO'', ''NEGOTIATE'', ''UNKNOWN'']"

section \<open>PlannerSynthesizer: \<open>map_state_to_planner\<close> (build_state_and_planner.py)\<close>

text \<open>
  The function returns a dict literal with the four keys \<open>planner_cmd\<close>, \<open>reason\<close>,
  \<open>target\<close>, \<open>until\<close>, in this order; \<open>planner_dict\<close> builds it. The state is stripped
  first.
\<close>

type_synonym planner_info = "(string \<times> string) list"

definition planner_dict :: "string \<times> string \<times> string \<times> string \<Rightarrow> planner_info" where
  "planner_dict r = (case r of (c, re, t, u) \<Rightarrow>
     [(''planner_cmd'', c), (''reason'', re), (''target'', t), (''until'', u)])"

definition map_state_to_planner :: "string \<Rightarrow> planner_info" where
  "map_state_to_planner state0 =
     (let state = strip state0 in
      if state = ''FOLLOW_QUEUE'' then
        planner_dict (''FOLLOW'', ''traffic_queue'', ''lead'', ''lead_moves'')
      else if state = ''GO_FOLLOW'' then
        planner_dict (''GO'', ''lead_moving'', ''lead'', ''constraint_reappears'')
      else if state \<in> set [''GO_FREE'', ''GO''] then
        planner_dict (''GO'', ''corridor_clear'', '''', ''constraint_reappears'')
      else if state = ''YIELD_PED'' then
        planner_dict (''WAIT'', ''pedestrian_in_path'', ''ped'', ''ped_clears'')
      else if state = ''STOP_PED'' then
        planner_dict (''STOP'', ''pedestrian_blocking'', ''ped'', ''ped_clears'')
      else if state = ''STOP_LEAD'' then
        planner_dict (''STOP'', ''lead_vehicle_stopped'', ''lead'', ''lead_moves'')
      else if state = ''NEGOTIATE'' then
        planner_dict (''WAIT'', ''negotiating_gap'', '''', ''scene_resolves'')
      else
        planner_dict (''WAIT'', ''unknown_state'', '''', ''state_resolved''))"

text \<open>
  The table of section 4.6 of the specification, row by row, on the state as given:
  (planner_cmd, reason, target, until).
\<close>

definition spec_synthesize :: "string \<Rightarrow> string \<times> string \<times> string \<times> string" where
  "spec_synthesize state =
     (if state = ''FOLLOW_QUEUE'' then (''FOLLOW'', ''traffic_queue'', ''lead'', ''lead_moves'')
      else if state = ''GO_FOLLOW'' then (''GO'', ''lead_moving'', ''lead'', ''constraint_reappears'')
      else if state = ''GO_FREE'' \<or> state = ''GO'' then
        (''GO'', ''corridor_clear'', '''', ''constraint_reappears'')
      else if state = ''YIELD_PED'' then (''WAIT'', ''pedestrian_in_path'', ''ped'', ''ped_clears'')
      else if state = ''STOP_PED'' then (''STOP'', ''pedestrian_blocking'', ''ped'', ''ped_clears'')
      else if state = ''STOP_LEAD'' then (''STOP'', ''lead_vehicle_stopped'', ''lead'', ''lead_moves'')
      else if state = ''NEGOTIATE'' then (''WAIT'', ''negotiating_gap'', '''', ''scene_resolves'')
      else (''WAIT'', ''unknown_state'', '''', ''state_resolved''))"

section \<open>Dynamically typed values, dictionaries, exceptions\<close>

text \<open>
  The rows of the pipeline are \<open>csv.DictReader\<close> dictionaries: the keys are column names,
  the values are strings, except \<open>frame_index\<close>, which the loaders replace by an \<open>int\<close>.
  A dictionary is an association list in insertion order; \<open>AList.update\<close> is the
  assignment \<open>d[k] = v\<close> (an existing key keeps its place, a new key goes last).
  An exception is an \<open>Inl\<close> result.
\<close>

datatype pyval = VStr string | VInt int

datatype error =
  KeyError | TypeError | ValueError | AttributeError | IndexError
  | FileNotFoundError | RuntimeError

type_synonym pydict = "(string \<times> pyval) list"

definition ebind :: "'e + 'a \<Rightarrow> ('a \<Rightarrow> 'e + 'b) \<Rightarrow> 'e + 'b" where
  "ebind m f = (case m of Inl e \<Rightarrow> Inl e | Inr x \<Rightarrow> f x)"

fun emap :: "('a \<Rightarrow> 'e + 'b) \<Rightarrow> 'a list \<Rightarrow> 'e + 'b list" where
  "emap f [] = Inr []"
| "emap f (x # xs) = ebind (f x) (\<lambda>y. ebind (emap f xs) (\<lambda>ys. Inr (y # ys)))"

text \<open>Truth value of a value: the empty string and 0 are false.\<close>

fun truthy :: "pyval \<Rightarrow> bool" where
  "truthy (VStr s) = (s \<noteq> [])"
| "truthy (VInt i) = (i \<noteq> 0)"

text \<open>\<open>d[k]\<close> raises KeyError on a missing key; \<open>d.get(k, default)\<close> does not.\<close>

definition getitem :: "pydict \<Rightarrow> string \<Rightarrow> error + pyval" where
  "getitem d k = (case map_of d k of None \<Rightarrow> Inl KeyError | Some v \<Rightarrow> Inr v)"

definition dict_get :: "pydict \<Rightarrow> string \<Rightarrow> pyval \<Rightarrow> pyval" where
  "dict_get d k dflt = (case map_of d k of None \<Rightarrow> dflt | Some v \<Rightarrow> v)"

text \<open>\<open>v.strip()\<close>: an \<open>int\<close> has no such method.\<close>

definition py_strip :: "pyval \<Rightarrow> error + string" where
  "py_strip v = (case v of VStr s \<Rightarrow> Inr (strip s) | VInt i \<Rightarrow> Inl AttributeError)"

text \<open>
  \<open>int(v)\<close>: the identity on an \<open>int\<close>. What the builtin reads from a string is not
  fixed here: \<open>int_of_str\<close> is a parameter (\<open>None\<close> where \<open>int\<close> raises ValueError).
\<close>

definition py_int :: "(string \<Rightarrow> int option) \<Rightarrow> pyval \<Rightarrow> error + int" where
  "py_int int_of_str v =
     (case v of
        VInt i \<Rightarrow> Inr i
      | VStr s \<Rightarrow> (case int_of_str s of None \<Rightarrow> Inl ValueError | Some i \<Rightarrow> Inr i))"

text \<open>The slice \<open>xs[a:b]\<close>, negative bounds counting from the end.\<close>

definition py_slice :: "'a list \<Rightarrow> int \<Rightarrow> int \<Rightarrow> 'a list" where
  "py_slice xs a b =
     (let n = int (length xs);
          lo = (if a < 0 then max (a + n) 0 else min a n);
          hi = (if b < 0 then max (b + n) 0 else min b n)
      in take (nat (hi - lo)) (drop (nat lo) xs))"

section \<open>SignalSmoother: \<open>majority_vote\<close> (temporal_smoothing.py)\<close>

text \<open>
  \<open>Counter(non_empty)\<close> counts in one pass, a new value entering the dictionary behind
  the earlier ones. \<open>most_common(1)\<close> is \<open>heapq.nlargest(1, items, key=count)\<close>, which is
  \<open>max\<close> over the items in dictionary order: the running best is replaced only by a
  strictly larger count. \<open>[0][0]\<close> on an empty result would raise IndexError.
\<close>

definition counter_add :: "('a \<times> nat) list \<Rightarrow> 'a \<Rightarrow> ('a \<times> nat) list" where
  "counter_add c x = AList.update x (case map_of c x of None \<Rightarrow> 1 | Some n \<Rightarrow> Suc n) c"

definition Counter :: "'a list \<Rightarrow> ('a \<times> nat) list" where
  "Counter xs = foldl counter_add [] xs"

fun max_first :: "('a \<times> nat) \<Rightarrow> ('a \<times> nat) list \<Rightarrow> ('a \<times> nat)" where
  "max_first best [] = best"
| "max_first best (p # ps) = max_first (if snd best < snd p then p else best) ps"

definition most_common1 :: "('a \<times> nat) list \<Rightarrow> ('a \<times> nat) list" where
  "most_common1 c = (case c of [] \<Rightarrow> [] | p # ps \<Rightarrow> [max_first p ps])"

definition majority_vote :: "pyval list \<Rightarrow> error + pyval" where
  "majority_vote vals =
     (let non_empty = filter truthy vals in
      if non_empty = [] then Inr (VStr '''')
      else (case most_common1 (Counter non_empty) of
              [] \<Rightarrow> Inl IndexError
            | p # ps \<Rightarrow> Inr (fst p)))"

section \<open>SignalSmoother: \<open>smooth_sequence\<close> (temporal_smoothing.py)\<close>

text \<open>
  Row dictionaries are objects: the store \<open>heap\<close> holds their contents, a reference is an
  index into it, and a Python list of rows is a list of references. \<open>dict(rows[i])\<close>
  allocates a new object with the same content; \<open>row[k] = v\<close> updates the object in place.
  A function on the store returns the store it leaves behind, also when it raises.
\<close>

type_synonym ref = nat
type_synonym heap = "pydict list"

definition setitem :: "heap \<Rightarrow> ref \<Rightarrow> string \<Rightarrow> pyval \<Rightarrow> heap" where
  "setitem h r k v = h[r := AList.update k v (h ! r)]"

text \<open>\<open>x or e\<close> evaluates \<open>e\<close> only when \<open>x\<close> is false.\<close>

definition py_or :: "pyval \<Rightarrow> (error + pyval) \<Rightarrow> error + pyval" where
  "py_or x e = (if truthy x then Inr x else e)"

text \<open>One round of the loop \<open>for i in range(n)\<close>: the new store and the new row.\<close>

definition smooth_step :: "heap \<Rightarrow> ref list \<Rightarrow> int \<Rightarrow> nat \<Rightarrow> error + heap \<times> ref" where
  "smooth_step h rows half i =
     (let n = int (length rows);
          start = max 0 (int i - half);
          end_i = min (n - 1) (int i + half);
          window_rows = py_slice rows start (end_i + 1)
      in
      ebind (emap (\<lambda>r. getitem (h ! r) ''affordance'') window_rows) (\<lambda>aff_vals.
      ebind (emap (\<lambda>r. getitem (h ! r) ''yield_to'') window_rows) (\<lambda>y_vals.
      ebind (emap (\<lambda>r. getitem (h ! r) ''lead_state'') window_rows) (\<lambda>lead_vals.
      ebind (majority_vote aff_vals) (\<lambda>aff_s.
      ebind (majority_vote y_vals) (\<lambda>y_s.
      ebind (majority_vote lead_vals) (\<lambda>lead_s.
      let row = length h;
          h0 = h @ [h ! (rows ! i)]
      in
      ebind (py_or aff_s (getitem (h0 ! row) ''affordance'')) (\<lambda>v1.
      let h1 = setitem h0 row ''affordance_smoothed'' v1 in
      ebind (py_or y_s (getitem (h1 ! row) ''yield_to'')) (\<lambda>v2.
      let h2 = setitem h1 row ''yield_to_smoothed'' v2 in
      ebind (py_or lead_s (getitem (h2 ! row) ''lead_state'')) (\<lambda>v3.
      let h3 = setitem h2 row ''lead_state_smoothed'' v3 in
      Inr (h3, row)))))))))))"

fun smooth_loop ::
  "heap \<Rightarrow> ref list \<Rightarrow> int \<Rightarrow> nat list \<Rightarrow> ref list \<Rightarrow> heap \<times> (error + ref list)" where
  "smooth_loop h rows half [] smoothed = (h, Inr smoothed)"
| "smooth_loop h rows half (i # js) smoothed =
     (case smooth_step h rows half i of
        Inl e \<Rightarrow> (h, Inl e)
      | Inr (h', row) \<Rightarrow> smooth_loop h' rows half js (smoothed @ [row]))"

definition smooth_sequence :: "heap \<Rightarrow> ref list \<Rightarrow> int \<Rightarrow> heap \<times> (error + ref list)" where
  "smooth_sequence h rows window =
     smooth_loop h rows (window div 2) [0..<length rows] []"

section \<open>GoReinjector: \<open>reinject_go_short\<close> (build_state_and_planner.py)\<close>

text \<open>
  \<open>raw_map\<close> maps a key (clip, frame_index) to the raw record; the records are only read.
  One round of the loop computes the final triple from the row object and then stores the
  three \<open>*_final\<close> entries into that same object; the object itself is appended to the
  result list.
\<close>

type_synonym raw_map = "string \<times> int \<Rightarrow> pydict option"

definition final_triple ::
  "(string \<Rightarrow> int option) \<Rightarrow> raw_map \<Rightarrow> pydict \<Rightarrow> error + pyval \<times> pyval \<times> pyval" where
  "final_triple int_of_str raw_map row =
     ebind (getitem row ''clip'') (\<lambda>c.
     ebind (py_strip c) (\<lambda>clip.
     ebind (getitem row ''frame_index'') (\<lambda>f.
     ebind (py_int int_of_str f) (\<lambda>fi.
     let key = (clip, fi) in
     ebind (py_strip (dict_get row ''affordance_smoothed'' (dict_get row ''affordance'' (VStr ''''))))
       (\<lambda>a_sm.
     ebind (py_strip (dict_get row ''yield_to_smoothed'' (dict_get row ''yield_to'' (VStr ''''))))
       (\<lambda>y_sm.
     ebind (py_strip (dict_get row ''lead_state_smoothed'' (dict_get row ''lead_state'' (VStr ''''))))
       (\<lambda>l_sm.
     case raw_map key of
       None \<Rightarrow> Inr (VStr a_sm, VStr y_sm, VStr l_sm)
     | Some raw \<Rightarrow>
         ebind (getitem raw ''affordance'') (\<lambda>a_raw.
         ebind (getitem raw ''yield_to'') (\<lambda>y_raw.
         ebind (getitem raw ''lead_state'') (\<lambda>l_raw.
         if a_raw = VStr ''go'' \<and> a_sm \<noteq> ''go'' \<and> y_sm \<noteq> ''ped'' \<and> y_raw \<noteq> VStr ''ped''
         then Inr (a_raw, y_raw, l_raw)
         else Inr (VStr a_sm, VStr y_sm, VStr l_sm)))))))))))"

definition set_final :: "pydict \<Rightarrow> pyval \<times> pyval \<times> pyval \<Rightarrow> pydict" where
  "set_final row t = (case t of (a_final, y_final, l_final) \<Rightarrow>
     AList.update ''lead_state_final'' l_final
       (AList.update ''yield_to_final'' y_final
         (AList.update ''affordance_final'' a_final row)))"

fun reinject_loop ::
  "(string \<Rightarrow> int option) \<Rightarrow> raw_map \<Rightarrow> heap \<Rightarrow> ref list \<Rightarrow> ref list
     \<Rightarrow> heap \<times> (error + ref list)" where
  "reinject_loop int_of_str raw_map h [] updated = (h, Inr updated)"
| "reinject_loop int_of_str raw_map h (row # rest) updated =
     (case final_triple int_of_str raw_map (h ! row) of
        Inl e \<Rightarrow> (h, Inl e)
      | Inr t \<Rightarrow>
          reinject_loop int_of_str raw_map (h[row := set_final (h ! row) t]) rest
            (updated @ [row]))"

definition reinject_go_short ::
  "(string \<Rightarrow> int option) \<Rightarrow> raw_map \<Rightarrow> heap \<Rightarrow> ref list \<Rightarrow> heap \<times> (error + ref list)" where
  "reinject_go_short int_of_str raw_map h smoothed_rows =
     reinject_loop int_of_str raw_map h smoothed_rows []"

section \<open>Notions the claims are stated with\<close>

text \<open>The values of a list in the order of their first occurrence.\<close>

fun uniq :: "'a list \<Rightarrow> 'a list" where
  "uniq [] = []"
| "uniq (x # xs) = x # uniq (filter (\<lambda>y. y \<noteq> x) xs)"

text \<open>
  The value \<open>most_common(1)\<close> names: it occurs in the list, no value occurs more often, and
  it occurs before the first occurrence of every other value that occurs as often.
\<close>

definition first_most_frequent :: "'a list \<Rightarrow> 'a \<Rightarrow> bool" where
  "first_most_frequent xs r \<longleftrightarrow>
     r \<in> set xs \<and>
     (\<forall>v \<in> set xs. count_list xs v \<le> count_list xs r) \<and>
     (\<forall>v \<in> set xs. v \<noteq> r \<and> count_list xs v = count_list xs r
         \<longrightarrow> r \<in> set (takeWhile (\<lambda>y. y \<noteq> v) xs))"

text \<open>
  The same on a window of values, empty ones not counting: \<open>r\<close> is a most frequent
  non-empty value of \<open>vals\<close>.
\<close>

definition most_frequent_nonempty :: "pyval list \<Rightarrow> pyval \<Rightarrow> bool" where
  "most_frequent_nonempty vals r \<longleftrightarrow>
     truthy r \<and> r \<in> set vals \<and>
     (\<forall>u \<in> set vals. truthy u \<longrightarrow> count_list vals u \<le> count_list vals r)"

text \<open>
  A row carries the three labels; \<open>field d k\<close> is the value \<open>d[k]\<close> of a key that is
  present.
\<close>

definition has_labels :: "pydict \<Rightarrow> bool" where
  "has_labels d \<longleftrightarrow>
     map_of d ''affordance'' \<noteq> None \<and> map_of d ''yield_to'' \<noteq> None \<and>
     map_of d ''lead_state'' \<noteq> None"

definition field :: "pydict \<Rightarrow> string \<Rightarrow> pyval" where
  "field d k = the (map_of d k)"

text \<open>
  The window of the specification for window size 3: the elements at the positions
  \<open>max(0, i - 1)\<close> to \<open>min(n - 1, i + 1)\<close>, both included (\<open>i - 1\<close> on \<open>nat\<close> stops at 0).
\<close>

definition window3 :: "'a list \<Rightarrow> nat \<Rightarrow> 'a list" where
  "window3 xs i = map (\<lambda>j. xs ! j) [i - 1 ..< Suc (min (length xs - 1) (i + 1))]"

text \<open>
  The smoothed value of one attribute as the specification describes it: a most frequent
  non-empty value of the window, or the row's own raw value when the window holds no
  non-empty value.
\<close>

definition smoothed_as_specified :: "pyval list \<Rightarrow> pyval \<Rightarrow> pyval \<Rightarrow> bool" where
  "smoothed_as_specified win raw s \<longleftrightarrow>
     (if \<exists>v \<in> set win. truthy v then most_frequent_nonempty win s else s = raw)"

text \<open>
  The smoothed row of position \<open>i\<close> of a clip with rows \<open>cs\<close>: row \<open>i\<close> with the three
  \<open>*_smoothed\<close> entries stored, each attribute smoothed on its own.
\<close>

definition smoothed_row_ok :: "pydict list \<Rightarrow> nat \<Rightarrow> pydict \<Rightarrow> bool" where
  "smoothed_row_ok cs i d' \<longleftrightarrow>
     (\<exists>sa sy sl.
        d' = AList.update ''lead_state_smoothed'' sl
               (AList.update ''yield_to_smoothed'' sy
                 (AList.update ''affordance_smoothed'' sa (cs ! i))) \<and>
        smoothed_as_specified (map (\<lambda>d. field d ''affordance'') (window3 cs i))
          (field (cs ! i) ''affordance'') sa \<and>
        smoothed_as_specified (map (\<lambda>d. field d ''yield_to'') (window3 cs i))
          (field (cs ! i) ''yield_to'') sy \<and>
        smoothed_as_specified (map (\<lambda>d. field d ''lead_state'') (window3 cs i))
          (field (cs ! i) ''lead_state'') sl)"

section \<open>Example clip\<close>

text \<open>
  The example of section 8 of the specification: the frames 10 to 12 of one clip, a lone
  \<open>go\<close> at frame 11 between two \<open>wait\<close>; \<open>example_raw\<close> is the raw record of frame 11 as
  \<open>load_raw_world\<close> keeps it.
\<close>

definition example_row :: "int \<Rightarrow> string \<Rightarrow> pydict" where
  "example_row fi a =
     [(''clip'', VStr ''clip0''), (''frame_index'', VInt fi), (''affordance'', VStr a),
      (''yield_to'', VStr ''none''), (''lead_state'', VStr ''none'')]"

definition example_heap :: heap where
  "example_heap = [example_row 10 ''wait'', example_row 11 ''go'', example_row 12 ''wait'']"


definition with_smoothed :: "pydict \<Rightarrow> string \<Rightarrow> string \<Rightarrow> string \<Rightarrow> pydict" where
  "with_smoothed d a y l =
     d @ [(''affordance_smoothed'', VStr a), (''yield_to_smoothed'', VStr y),
          (''lead_state_smoothed'', VStr l)]"

definition with_final :: "pydict \<Rightarrow> string \<Rightarrow> string \<Rightarrow> string \<Rightarrow> pydict" where
  "with_final d a y l =
     d @ [(''affordance_final'', VStr a), (''yield_to_final'', VStr y),
          (''lead_state_final'', VStr l)]"

section \<open>Notions for the reinjector\<close>







text \<open>
  A row the reinjector accepts: \<open>clip\<close> is a string, \<open>frame_index\<close> is there and
  \<open>int\<close> reads it, the three smoothed values are strings, and the raw record of the row,
  if there is one, carries the three labels.
\<close>

definition is_str :: "pyval \<Rightarrow> bool" where
  "is_str v = (case v of VStr s \<Rightarrow> True | VInt i \<Rightarrow> False)"





text \<open>The labels of the data model (section 3 of the specification).\<close>

definition label_values :: "string list" where
  "label_values = [''go'', ''wait'', ''stop'', ''none'', ''lead'', ''ped'', ''moving'', ''stopped'', '''']"

section \<open>Grouping by clip and sorting by frame index\<close>

text \<open>
  \<open>by_clip.setdefault(k, []).append(v)\<close> on a dictionary in insertion order, and the loop
  that groups rows under their \<open>clip\<close> value (\<open>clip_of\<close> reads it, raising KeyError when
  the column is missing).
\<close>

fun setdefault_append :: "('k \<times> 'v list) list \<Rightarrow> 'k \<Rightarrow> 'v \<Rightarrow> ('k \<times> 'v list) list" where
  "setdefault_append [] k v = [(k, [v])]"
| "setdefault_append ((k', vs) # rest) k v =
     (if k' = k then (k', vs @ [v]) # rest else (k', vs) # setdefault_append rest k v)"

fun group_by_clip ::
  "('a \<Rightarrow> error + pyval) \<Rightarrow> (pyval \<times> 'a list) list \<Rightarrow> 'a list
     \<Rightarrow> error + (pyval \<times> 'a list) list" where
  "group_by_clip clip_of by_clip [] = Inr by_clip"
| "group_by_clip clip_of by_clip (r # rs) =
     ebind (clip_of r) (\<lambda>c. group_by_clip clip_of (setdefault_append by_clip c r) rs)"

text \<open>
  \<open>sorted(xs, key=f)\<close>: the keys are computed first (an exception of \<open>f\<close> leaves), then
  the list is sorted stably by them. Keys that are all \<open>int\<close> compare as numbers, keys
  that are all \<open>str\<close> compare by code points; \<open>int\<close> against \<open>str\<close> raises TypeError.
\<close>

definition is_int :: "pyval \<Rightarrow> bool" where
  "is_int v = (case v of VInt i \<Rightarrow> True | VStr s \<Rightarrow> False)"

definition int_of :: "pyval \<Rightarrow> int" where
  "int_of v = (case v of VInt i \<Rightarrow> i | VStr s \<Rightarrow> 0)"

definition str_of :: "pyval \<Rightarrow> string" where
  "str_of v = (case v of VStr s \<Rightarrow> s | VInt i \<Rightarrow> [])"

definition py_sorted :: "('a \<Rightarrow> error + pyval) \<Rightarrow> 'a list \<Rightarrow> error + 'a list" where
  "py_sorted f xs =
     ebind (emap f xs) (\<lambda>keys.
       if list_all is_int keys then Inr (map snd (sort_key fst (zip (map int_of keys) xs)))
       else if list_all is_str keys then Inr (map snd (sort_key fst (zip (map str_of keys) xs)))
       else Inl TypeError)"

section \<open>Segmenter: \<open>segment_clip\<close> and \<open>infer_phase\<close> (segment_world_state.py)\<close>

text \<open>
  A phase segment is the dict literal with the keys start, end, affordance, yield_to,
  lead_state. The loop carries \<open>current_start\<close>, \<open>current_end\<close>, \<open>current_key\<close> and the
  segments closed so far; \<open>fi == current_end + 1\<close> is evaluated only when the keys are
  equal, and adding 1 to a string raises TypeError.
\<close>

record phase_segment =
  seg_start :: pyval
  seg_end :: pyval
  seg_affordance :: pyval
  seg_yield_to :: pyval
  seg_lead_state :: pyval

definition phase_key :: "pydict \<Rightarrow> error + pyval \<times> pyval \<times> pyval" where
  "phase_key r =
     ebind (getitem r ''affordance_smoothed'') (\<lambda>a.
     ebind (getitem r ''yield_to_smoothed'') (\<lambda>y.
     ebind (getitem r ''lead_state_smoothed'') (\<lambda>l. Inr (a, y, l))))"

definition py_add1 :: "pyval \<Rightarrow> error + pyval" where
  "py_add1 v = (case v of VInt i \<Rightarrow> Inr (VInt (i + 1)) | VStr s \<Rightarrow> Inl TypeError)"

definition close_phase :: "pyval \<Rightarrow> pyval \<Rightarrow> pyval \<times> pyval \<times> pyval \<Rightarrow> phase_segment" where
  "close_phase current_start current_end current_key =
     (case current_key of (a, y, l) \<Rightarrow>
        \<lparr>seg_start = current_start, seg_end = current_end, seg_affordance = a,
         seg_yield_to = y, seg_lead_state = l\<rparr>)"

fun segment_clip_loop ::
  "pyval \<Rightarrow> pyval \<Rightarrow> pyval \<times> pyval \<times> pyval \<Rightarrow> phase_segment list \<Rightarrow> pydict list
     \<Rightarrow> error + phase_segment list" where
  "segment_clip_loop current_start current_end current_key segments [] =
     Inr (segments @ [close_phase current_start current_end current_key])"
| "segment_clip_loop current_start current_end current_key segments (r # rs) =
     ebind (phase_key r) (\<lambda>k.
     ebind (getitem r ''frame_index'') (\<lambda>fi.
     ebind (if k = current_key then ebind (py_add1 current_end) (\<lambda>e1. Inr (fi = e1))
            else Inr False) (\<lambda>same.
     if same then segment_clip_loop current_start fi current_key segments rs
     else segment_clip_loop fi fi k
            (segments @ [close_phase current_start current_end current_key]) rs)))"

definition segment_clip :: "pydict list \<Rightarrow> error + phase_segment list" where
  "segment_clip rows =
     (case rows of
        [] \<Rightarrow> Inr []
      | r0 # rest \<Rightarrow>
          ebind (getitem r0 ''frame_index'') (\<lambda>f0.
          ebind (phase_key r0) (\<lambda>k0. segment_clip_loop f0 f0 k0 [] rest)))"

definition infer_phase :: "phase_segment \<Rightarrow> string" where
  "infer_phase seg =
     (let a = seg_affordance seg; y = seg_yield_to seg; l = seg_lead_state seg in
      if a = VStr ''stop'' then
        (if y = VStr ''ped'' then ''STOP for pedestrian''
         else if y = VStr ''lead'' then ''STOP behind vehicle''
         else ''STOP'')
      else if a = VStr ''wait'' then
        (if y = VStr ''ped'' then ''YIELD to pedestrian''
         else if y = VStr ''lead'' then ''FOLLOW / queue''
         else ''WAIT'')
      else if a = VStr ''go'' then
        (if y = VStr ''lead'' \<and> l = VStr ''moving'' then ''FOLLOW moving lead'' else ''GO'')
      else ''UNKNOWN'')"

text \<open>
  The body of the loop \<open>for clip, clip_rows in by_clip.items()\<close> of \<open>main\<close>: the rows it
  hands to \<open>writer.writerow\<close> for one clip, \<open>segment_id\<close> counting from 0 by
  \<open>enumerate\<close>.
\<close>

definition phase_csv_row :: "pyval \<Rightarrow> nat \<times> phase_segment \<Rightarrow> pydict" where
  "phase_csv_row clip p = (case p of (seg_id, seg) \<Rightarrow>
     [(''clip'', clip), (''segment_id'', VInt (int seg_id)), (''start'', seg_start seg),
      (''end'', seg_end seg), (''affordance'', seg_affordance seg),
      (''yield_to'', seg_yield_to seg), (''lead_state'', seg_lead_state seg),
      (''phase'', VStr (infer_phase seg))])"

definition segment_main_clip :: "pyval \<Rightarrow> pydict list \<Rightarrow> error + pydict list" where
  "segment_main_clip clip clip_rows =
     ebind (py_sorted (\<lambda>r. getitem r ''frame_index'') clip_rows) (\<lambda>sorted_rows.
     ebind (segment_clip sorted_rows) (\<lambda>segments.
     Inr (map (phase_csv_row clip) (List.enumerate 0 segments))))"

section \<open>Segmenter: \<open>segment_states\<close> (build_state_and_planner.py)\<close>

text \<open>
  A state segment is the dict literal with the keys clip, segment_id, start_frame,
  end_frame, state, affordance, yield_to, lead_state. \<open>map_world_to_state(a, y, l)\<close> on
  row values strips them first, which raises AttributeError on an \<open>int\<close>. The loop carries
  the open segment (\<open>None\<close> before the first row), \<open>seg_id\<close> and the list \<open>segments\<close>, which
  all clips share.
\<close>

record state_segment =
  sg_clip :: pyval
  sg_segment_id :: nat
  sg_start_frame :: int
  sg_end_frame :: int
  sg_state :: string
  sg_affordance :: pyval
  sg_yield_to :: pyval
  sg_lead_state :: pyval

record cursor =
  current_state :: string
  current_start :: int
  current_end :: int
  current_aff :: pyval
  current_y :: pyval
  current_l :: pyval

definition classify_values :: "pyval \<Rightarrow> pyval \<Rightarrow> pyval \<Rightarrow> error + string" where
  "classify_values a y l =
     (case a of
        VInt i \<Rightarrow> Inl AttributeError
      | VStr a' \<Rightarrow>
          (case y of
             VInt i \<Rightarrow> Inl AttributeError
           | VStr y' \<Rightarrow>
               (case l of
                  VInt i \<Rightarrow> Inl AttributeError
                | VStr l' \<Rightarrow> Inr (map_world_to_state a' y' l'))))"

definition close_state :: "pyval \<Rightarrow> nat \<Rightarrow> cursor \<Rightarrow> state_segment" where
  "close_state clip seg_id c =
     \<lparr>sg_clip = clip, sg_segment_id = seg_id, sg_start_frame = current_start c,
      sg_end_frame = current_end c, sg_state = current_state c,
      sg_affordance = current_aff c, sg_yield_to = current_y c, sg_lead_state = current_l c\<rparr>"

fun segment_states_loop ::
  "(string \<Rightarrow> int option) \<Rightarrow> pyval \<Rightarrow> cursor option \<Rightarrow> nat \<Rightarrow> state_segment list
     \<Rightarrow> pydict list \<Rightarrow> error + cursor option \<times> nat \<times> state_segment list" where
  "segment_states_loop int_of_str clip cur seg_id segments [] = Inr (cur, seg_id, segments)"
| "segment_states_loop int_of_str clip cur seg_id segments (r # rs) =
     ebind (getitem r ''frame_index'') (\<lambda>f.
     ebind (py_int int_of_str f) (\<lambda>fi.
     ebind (getitem r ''affordance_final'') (\<lambda>a.
     ebind (getitem r ''yield_to_final'') (\<lambda>y.
     ebind (getitem r ''lead_state_final'') (\<lambda>l.
     ebind (classify_values a y l) (\<lambda>s.
     let fresh = \<lparr>current_state = s, current_start = fi, current_end = fi,
                   current_aff = a, current_y = y, current_l = l\<rparr>
     in
     case cur of
       None \<Rightarrow> segment_states_loop int_of_str clip (Some fresh) seg_id segments rs
     | Some c \<Rightarrow>
         if s = current_state c \<and> fi = current_end c + 1
         then segment_states_loop int_of_str clip (Some (c\<lparr>current_end := fi\<rparr>)) seg_id
                segments rs
         else segment_states_loop int_of_str clip (Some fresh) (seg_id + 1)
                (segments @ [close_state clip seg_id c]) rs))))))"

definition segment_states_clip ::
  "(string \<Rightarrow> int option) \<Rightarrow> state_segment list \<Rightarrow> pyval \<times> pydict list
     \<Rightarrow> error + state_segment list" where
  "segment_states_clip int_of_str segments g = (case g of (clip, clip_rows) \<Rightarrow>
     ebind (py_sorted (\<lambda>r. getitem r ''frame_index'') clip_rows) (\<lambda>sorted_rows.
     ebind (segment_states_loop int_of_str clip None 0 segments sorted_rows) (\<lambda>res.
     case res of (cur, seg_id, segments') \<Rightarrow>
       (case cur of
          None \<Rightarrow> Inr segments'
        | Some c \<Rightarrow> Inr (segments' @ [close_state clip seg_id c])))))"

fun segment_states_clips ::
  "(string \<Rightarrow> int option) \<Rightarrow> state_segment list \<Rightarrow> (pyval \<times> pydict list) list
     \<Rightarrow> error + state_segment list" where
  "segment_states_clips int_of_str segments [] = Inr segments"
| "segment_states_clips int_of_str segments (g # gs) =
     ebind (segment_states_clip int_of_str segments g) (\<lambda>segments'.
       segment_states_clips int_of_str segments' gs)"

definition segment_states :: "(string \<Rightarrow> int option) \<Rightarrow> pydict list \<Rightarrow> error + state_segment list" where
  "segment_states int_of_str rows =
     ebind (group_by_clip (\<lambda>r. getitem r ''clip'') [] rows) (\<lambda>by_clip.
       segment_states_clips int_of_str [] by_clip)"

section \<open>Notions for the segmenters\<close>

text \<open>
  The maximal runs of a list under a relation \<open>link\<close> between neighbours: the list cut
  exactly where two neighbours are not linked.
\<close>

fun maximal_runs :: "('a \<Rightarrow> 'a \<Rightarrow> bool) \<Rightarrow> 'a list \<Rightarrow> 'a list list" where
  "maximal_runs link [] = []"
| "maximal_runs link [x] = [[x]]"
| "maximal_runs link (x # y # zs) =
     (if link x y then
        (case maximal_runs link (y # zs) of [] \<Rightarrow> [[x]] | g # gs \<Rightarrow> (x # g) # gs)
      else [x] # maximal_runs link (y # zs))"

text \<open>
  The frame index of a row, the key of the phase segmenter (the smoothed triple), the key
  of the state segmenter (the state of the final triple), and the relation "same key and
  frame index larger by exactly 1".
\<close>

definition frame_of :: "pydict \<Rightarrow> int" where
  "frame_of r = int_of (field r ''frame_index'')"

definition smoothed_key :: "pydict \<Rightarrow> pyval \<times> pyval \<times> pyval" where
  "smoothed_key r =
     (field r ''affordance_smoothed'', field r ''yield_to_smoothed'',
      field r ''lead_state_smoothed'')"

definition final_state :: "pydict \<Rightarrow> string" where
  "final_state r =
     map_world_to_state (str_of (field r ''affordance_final''))
       (str_of (field r ''yield_to_final'')) (str_of (field r ''lead_state_final''))"

definition same_run :: "(pydict \<Rightarrow> 'k) \<Rightarrow> pydict \<Rightarrow> pydict \<Rightarrow> bool" where
  "same_run key x y \<longleftrightarrow> key y = key x \<and> frame_of y = frame_of x + 1"

text \<open>The segment a run stands for: first and last frame, and the labels of its first row.\<close>

definition phase_segment_of :: "pydict list \<Rightarrow> phase_segment" where
  "phase_segment_of g =
     \<lparr>seg_start = field (hd g) ''frame_index'', seg_end = field (last g) ''frame_index'',
      seg_affordance = field (hd g) ''affordance_smoothed'',
      seg_yield_to = field (hd g) ''yield_to_smoothed'',
      seg_lead_state = field (hd g) ''lead_state_smoothed''\<rparr>"

definition state_segment_of :: "pyval \<Rightarrow> nat \<times> pydict list \<Rightarrow> state_segment" where
  "state_segment_of clip p = (case p of (seg_id, g) \<Rightarrow>
     \<lparr>sg_clip = clip, sg_segment_id = seg_id, sg_start_frame = frame_of (hd g),
      sg_end_frame = frame_of (last g), sg_state = final_state (hd g),
      sg_affordance = field (hd g) ''affordance_final'',
      sg_yield_to = field (hd g) ''yield_to_final'',
      sg_lead_state = field (hd g) ''lead_state_final''\<rparr>)"

text \<open>
  Rows as the loaders and the earlier stages deliver them: an \<open>int\<close> frame index, and the
  three smoothed entries (phase segmenter), or a clip and three final entries that are
  strings (state segmenter).
\<close>

definition has_int :: "pydict \<Rightarrow> string \<Rightarrow> bool" where
  "has_int r k = (case map_of r k of Some v \<Rightarrow> is_int v | None \<Rightarrow> False)"

definition has_str :: "pydict \<Rightarrow> string \<Rightarrow> bool" where
  "has_str r k = (case map_of r k of Some v \<Rightarrow> is_str v | None \<Rightarrow> False)"

definition smoothed_row :: "pydict \<Rightarrow> bool" where
  "smoothed_row r \<longleftrightarrow>
     has_int r ''frame_index'' \<and> map_of r ''affordance_smoothed'' \<noteq> None \<and>
     map_of r ''yield_to_smoothed'' \<noteq> None \<and> map_of r ''lead_state_smoothed'' \<noteq> None"

definition final_row :: "pydict \<Rightarrow> bool" where
  "final_row r \<longleftrightarrow>
     map_of r ''clip'' \<noteq> None \<and> has_int r ''frame_index'' \<and>
     has_str r ''affordance_final'' \<and> has_str r ''yield_to_final'' \<and>
     has_str r ''lead_state_final''"

text \<open>The rows of one clip, and what \<open>segment_states\<close> is to return for them.\<close>

definition clip_rows_of :: "pyval \<Rightarrow> pydict list \<Rightarrow> pydict list" where
  "clip_rows_of c rows = filter (\<lambda>r. field r ''clip'' = c) rows"

definition state_segments_of_clip :: "pyval \<Rightarrow> pydict list \<Rightarrow> state_segment list" where
  "state_segments_of_clip c clip_rows =
     map (state_segment_of c)
       (List.enumerate 0 (maximal_runs (same_run final_state) (sort_key frame_of clip_rows)))"

text \<open>
  Segments, each given as (segment_id, start, end), tile a clip's frames: the ids are
  0, 1, ... in emission order, the starts increase with the ids, no segment ends before
  it starts, and the inclusive ranges together hold exactly the clip's frame indices,
  each as often as the clip has it.
\<close>

definition segments_tile :: "(int \<times> int \<times> int) list \<Rightarrow> int list \<Rightarrow> bool" where
  "segments_tile segs frames \<longleftrightarrow>
     map fst segs = map int [0..<length segs] \<and>
     sorted_wrt (<) (map (\<lambda>s. fst (snd s)) segs) \<and>
     (\<forall>s \<in> set segs. fst (snd s) \<le> snd (snd s)) \<and>
     mset (concat (map (\<lambda>s. [fst (snd s)..snd (snd s)]) segs)) = mset frames"

definition phase_span :: "pydict \<Rightarrow> int \<times> int \<times> int" where
  "phase_span r =
     (int_of (field r ''segment_id''), int_of (field r ''start''), int_of (field r ''end''))"

definition state_span :: "state_segment \<Rightarrow> int \<times> int \<times> int" where
  "state_span s = (int (sg_segment_id s), sg_start_frame s, sg_end_frame s)"

text \<open>Example rows with smoothed and with final entries.\<close>

definition smoothed_example :: "int \<Rightarrow> string \<Rightarrow> pydict" where
  "smoothed_example fi a = with_smoothed (example_row fi a) a ''none'' ''none''"

definition final_example :: "int \<Rightarrow> string \<Rightarrow> pydict" where
  "final_example fi a = with_final (smoothed_example fi a) a ''none'' ''none''"

section \<open>Tables on disk\<close>

text \<open>
  A CSV file is kept as what \<open>csv.DictReader\<close> yields for it and \<open>csv.DictWriter\<close> is
  given for it: the field names and one dictionary per row (cell values stay values, their
  text form is not modelled). The directory \<open>data/predictions\<close> is a map from file names
  to files; a stage returns the directory it leaves behind and the exception that ended
  it, if any.
\<close>

record csv_file =
  csv_fieldnames :: "string list"
  csv_rows :: "pydict list"

type_synonym files = "string \<Rightarrow> csv_file option"

text \<open>\<open>open(path, "w")\<close> followed by \<open>writer.writeheader()\<close>.\<close>

definition open_w :: "files \<Rightarrow> string \<Rightarrow> string list \<Rightarrow> files" where
  "open_w fs path fieldnames = fs(path \<mapsto> \<lparr>csv_fieldnames = fieldnames, csv_rows = []\<rparr>)"

definition append_row :: "files \<Rightarrow> string \<Rightarrow> pydict \<Rightarrow> files" where
  "append_row fs path row =
     (case fs path of
        None \<Rightarrow> fs
      | Some f \<Rightarrow> fs(path \<mapsto> f\<lparr>csv_rows := csv_rows f @ [row]\<rparr>))"

text \<open>
  \<open>DictWriter.writerow(r)\<close>: ValueError when \<open>r\<close> has a key that is no field name;
  otherwise the cells \<open>r.get(k, "")\<close> in the order of the field names.
\<close>

definition writerow :: "string list \<Rightarrow> pydict \<Rightarrow> error + pydict" where
  "writerow fieldnames r =
     (if list_all (\<lambda>k. k \<in> set fieldnames) (map fst r)
      then Inr (map (\<lambda>k. (k, dict_get r k (VStr ''''))) fieldnames)
      else Inl ValueError)"

fun write_rows :: "files \<Rightarrow> string \<Rightarrow> string list \<Rightarrow> pydict list \<Rightarrow> files \<times> error option" where
  "write_rows fs path fieldnames [] = (fs, None)"
| "write_rows fs path fieldnames (r # rs) =
     (case writerow fieldnames r of
        Inl e \<Rightarrow> (fs, Some e)
      | Inr row \<Rightarrow> write_rows (append_row fs path row) path fieldnames rs)"

text \<open>\<open>r["frame_index"] = int(r["frame_index"])\<close>, as every loader does it.\<close>

definition to_int_frame_index :: "(string \<Rightarrow> int option) \<Rightarrow> pydict \<Rightarrow> error + pydict" where
  "to_int_frame_index int_of_str r =
     ebind (getitem r ''frame_index'') (\<lambda>f.
     ebind (py_int int_of_str f) (\<lambda>i. Inr (AList.update ''frame_index'' (VInt i) r)))"

section \<open>The smoothing stage: \<open>main\<close> (temporal_smoothing.py)\<close>

definition INPUT_FILENAME :: string where
  "INPUT_FILENAME = ''world_state_claude.csv''"

definition OUTPUT_FILENAME :: string where
  "OUTPUT_FILENAME = ''world_state_claude_smoothed.csv''"

fun smooth_clips ::
  "heap \<Rightarrow> ref list \<Rightarrow> (pyval \<times> ref list) list \<Rightarrow> error + heap \<times> ref list" where
  "smooth_clips h all_smoothed [] = Inr (h, all_smoothed)"
| "smooth_clips h all_smoothed (g # gs) =
     ebind (py_sorted (\<lambda>r. getitem (h ! r) ''frame_index'') (snd g)) (\<lambda>clip_rows_sorted.
       case smooth_sequence h clip_rows_sorted 3 of
         (h', Inl e) \<Rightarrow> Inl e
       | (h', Inr smoothed_rows) \<Rightarrow> smooth_clips h' (all_smoothed @ smoothed_rows) gs)"

definition smoothing_main :: "(string \<Rightarrow> int option) \<Rightarrow> files \<Rightarrow> files \<times> error option" where
  "smoothing_main int_of_str fs =
     (case fs INPUT_FILENAME of
        None \<Rightarrow> (fs, Some FileNotFoundError)
      | Some f \<Rightarrow>
          if csv_rows f = [] then (fs, Some RuntimeError)
          else
            (case emap (to_int_frame_index int_of_str) (csv_rows f) of
               Inl e \<Rightarrow> (fs, Some e)
             | Inr h \<Rightarrow>
                 (case group_by_clip (\<lambda>r. getitem (h ! r) ''clip'') [] [0..<length h] of
                    Inl e \<Rightarrow> (fs, Some e)
                  | Inr by_clip \<Rightarrow>
                      (case smooth_clips h [] by_clip of
                         Inl e \<Rightarrow> (fs, Some e)
                       | Inr (h', all_smoothed) \<Rightarrow>
                           (let base_fields = map fst (h' ! 0);
                                extra_fields = [''affordance_smoothed'', ''yield_to_smoothed'',
                                                ''lead_state_smoothed''];
                                fieldnames = base_fields @ extra_fields
                            in write_rows (open_w fs OUTPUT_FILENAME fieldnames) OUTPUT_FILENAME
                                 fieldnames (map (\<lambda>r. h' ! r) all_smoothed))))))"

section \<open>The segmentation stage: \<open>main\<close> (segment_world_state.py)\<close>

definition SEGMENTS_FILENAME :: string where
  "SEGMENTS_FILENAME = ''world_state_segments.csv''"

definition segment_fieldnames :: "string list" where
  "segment_fieldnames =
     [''clip'', ''segment_id'', ''start'', ''end'', ''affordance'', ''yield_to'', ''lead_state'',
      ''phase'']"

fun segment_write_clips :: "files \<Rightarrow> (pyval \<times> pydict list) list \<Rightarrow> files \<times> error option" where
  "segment_write_clips fs [] = (fs, None)"
| "segment_write_clips fs (g # gs) =
     (case segment_main_clip (fst g) (snd g) of
        Inl e \<Rightarrow> (fs, Some e)
      | Inr rows \<Rightarrow>
          (case write_rows fs SEGMENTS_FILENAME segment_fieldnames rows of
             (fs', Some e) \<Rightarrow> (fs', Some e)
           | (fs', None) \<Rightarrow> segment_write_clips fs' gs))"

definition segment_main :: "(string \<Rightarrow> int option) \<Rightarrow> files \<Rightarrow> files \<times> error option" where
  "segment_main int_of_str fs =
     (case fs OUTPUT_FILENAME of
        None \<Rightarrow> (fs, Some FileNotFoundError)
      | Some f \<Rightarrow>
          (case emap (to_int_frame_index int_of_str) (csv_rows f) of
             Inl e \<Rightarrow> (fs, Some e)
           | Inr rows \<Rightarrow>
               (case group_by_clip (\<lambda>r. getitem r ''clip'') [] rows of
                  Inl e \<Rightarrow> (fs, Some e)
                | Inr by_clip \<Rightarrow>
                    segment_write_clips (open_w fs SEGMENTS_FILENAME segment_fieldnames)
                      by_clip)))"

section \<open>The state and planner stage (build_state_and_planner.py)\<close>

text \<open>
  The stage reads the raw table \<open>world_state_claude.csv\<close> (\<open>INPUT_FILENAME\<close>) and the
  smoothed table \<open>world_state_claude_smoothed.csv\<close> (\<open>OUTPUT_FILENAME\<close>).
  \<open>load_raw_world\<close>: a later row of the same (clip, frame_index) replaces an earlier one.
\<close>

fun load_raw_world ::
  "(string \<Rightarrow> int option) \<Rightarrow> raw_map \<Rightarrow> pydict list \<Rightarrow> error + raw_map" where
  "load_raw_world int_of_str raw [] = Inr raw"
| "load_raw_world int_of_str raw (row # rows) =
     ebind (getitem row ''clip'') (\<lambda>c.
     ebind (py_strip c) (\<lambda>clip.
     ebind (getitem row ''frame_index'') (\<lambda>f.
     ebind (py_int int_of_str f) (\<lambda>fi.
     ebind (getitem row ''affordance'') (\<lambda>a.
     ebind (py_strip a) (\<lambda>a'.
     ebind (getitem row ''yield_to'') (\<lambda>y.
     ebind (py_strip y) (\<lambda>y'.
     ebind (getitem row ''lead_state'') (\<lambda>l.
     ebind (py_strip l) (\<lambda>l'.
     load_raw_world int_of_str
       (raw((clip, fi) \<mapsto>
          [(''affordance'', VStr a'), (''yield_to'', VStr y'), (''lead_state'', VStr l')]))
       rows))))))))))"

text \<open>
  \<open>add_prev_next\<close>: the segments grouped by clip, each group sorted by \<open>segment_id\<close>, every
  segment with the state of its neighbours in the group (the empty string at the ends).
\<close>

record linked_segment =
  lk_segment :: state_segment
  lk_prev_state :: string
  lk_next_state :: string

definition link_clip :: "state_segment list \<Rightarrow> linked_segment list" where
  "link_clip clip_segs0 =
     (let clip_segs = sort_key sg_segment_id clip_segs0; n = length clip_segs in
      map (\<lambda>i. \<lparr>lk_segment = clip_segs ! i,
                 lk_prev_state = (if i > 0 then sg_state (clip_segs ! (i - 1)) else ''''),
                 lk_next_state = (if i < n - 1 then sg_state (clip_segs ! (i + 1)) else '''')\<rparr>)
        [0..<n])"

definition add_prev_next :: "state_segment list \<Rightarrow> linked_segment list" where
  "add_prev_next segments =
     concat (map (\<lambda>g. link_clip (snd g))
       (foldl (\<lambda>by_clip seg. setdefault_append by_clip (sg_clip seg) seg) [] segments))"

text \<open>A linked segment as the dictionary it is, in the order its keys were stored.\<close>

definition segment_dict :: "linked_segment \<Rightarrow> pydict" where
  "segment_dict s =
     (let g = lk_segment s in
      [(''clip'', sg_clip g), (''segment_id'', VInt (int (sg_segment_id g))),
       (''start_frame'', VInt (sg_start_frame g)), (''end_frame'', VInt (sg_end_frame g)),
       (''state'', VStr (sg_state g)), (''affordance'', sg_affordance g),
       (''yield_to'', sg_yield_to g), (''lead_state'', sg_lead_state g),
       (''prev_state'', VStr (lk_prev_state s)), (''next_state'', VStr (lk_next_state s))])"

text \<open>\<open>r = dict(seg); r.update(map_state_to_planner(seg["state"]))\<close>.\<close>

definition planner_row :: "linked_segment \<Rightarrow> pydict" where
  "planner_row s =
     foldl (\<lambda>r kv. AList.update (fst kv) (VStr (snd kv)) r) (segment_dict s)
       (map_state_to_planner (sg_state (lk_segment s)))"

text \<open>\<open>write_csv\<close>: every row is cut to the field names first, so no row is refused.\<close>

definition write_csv :: "files \<Rightarrow> string \<Rightarrow> string list \<Rightarrow> pydict list \<Rightarrow> files" where
  "write_csv fs path fieldnames rows =
     fs(path \<mapsto> \<lparr>csv_fieldnames = fieldnames,
                  csv_rows = map (\<lambda>r. map (\<lambda>k. (k, dict_get r k (VStr ''''))) fieldnames) rows\<rparr>)"

definition FINAL_FILENAME :: string where
  "FINAL_FILENAME = ''world_state_final.csv''"

definition MACHINE_FILENAME :: string where
  "MACHINE_FILENAME = ''world_state_machine.csv''"

definition PLANNER_FILENAME :: string where
  "PLANNER_FILENAME = ''planner_commands.csv''"

definition machine_fields :: "string list" where
  "machine_fields =
     [''clip'', ''segment_id'', ''start_frame'', ''end_frame'', ''state'', ''prev_state'',
      ''next_state'', ''affordance'', ''yield_to'', ''lead_state'']"

definition planner_fields :: "string list" where
  "planner_fields =
     [''clip'', ''segment_id'', ''start_frame'', ''end_frame'', ''state'', ''prev_state'',
      ''next_state'', ''planner_cmd'', ''reason'', ''target'', ''until'']"

definition build_main :: "(string \<Rightarrow> int option) \<Rightarrow> files \<Rightarrow> files \<times> error option" where
  "build_main int_of_str fs =
     (case fs INPUT_FILENAME of
        None \<Rightarrow> (fs, Some FileNotFoundError)
      | Some raw_file \<Rightarrow>
     (case fs OUTPUT_FILENAME of
        None \<Rightarrow> (fs, Some FileNotFoundError)
      | Some smoothed_file \<Rightarrow>
     (case load_raw_world int_of_str Map.empty (csv_rows raw_file) of
        Inl e \<Rightarrow> (fs, Some e)
      | Inr raw_map \<Rightarrow>
     (case emap (to_int_frame_index int_of_str) (csv_rows smoothed_file) of
        Inl e \<Rightarrow> (fs, Some e)
      | Inr h \<Rightarrow>
     (case reinject_go_short int_of_str raw_map h [0..<length h] of
        (h', Inl e) \<Rightarrow> (fs, Some e)
      | (h', Inr final_refs) \<Rightarrow>
          (let final_rows = map (\<lambda>r. h' ! r) final_refs;
               fs1 = (case final_rows of
                        [] \<Rightarrow> fs
                      | r0 # rest \<Rightarrow> write_csv fs FINAL_FILENAME (map fst r0) final_rows)
           in
           case segment_states int_of_str final_rows of
             Inl e \<Rightarrow> (fs1, Some e)
           | Inr segs0 \<Rightarrow>
               (let segs = add_prev_next segs0;
                    fs2 = (if segs \<noteq> []
                           then write_csv fs1 MACHINE_FILENAME machine_fields
                                  (map segment_dict segs)
                           else fs1);
                    planner_rows = map planner_row segs;
                    fs3 = (if planner_rows \<noteq> []
                           then write_csv fs2 PLANNER_FILENAME planner_fields planner_rows
                           else fs2)
                in (fs3, None))))))))"

text \<open>Example directories: both input tables without rows, and a raw table with one row.\<close>

definition raw_fieldnames :: "string list" where
  "raw_fieldnames = [''clip'', ''frame_index'', ''affordance'', ''yield_to'', ''lead_state'']"

definition empty_tables :: files where
  "empty_tables =
     [INPUT_FILENAME \<mapsto> \<lparr>csv_fieldnames = raw_fieldnames, csv_rows = []\<rparr>,
      OUTPUT_FILENAME \<mapsto> \<lparr>csv_fieldnames = raw_fieldnames, csv_rows = []\<rparr>]"

definition empty_smoothed_table :: files where
  "empty_smoothed_table =
     [INPUT_FILENAME \<mapsto> \<lparr>csv_fieldnames = raw_fieldnames, csv_rows = [example_row 11 ''go'']\<rparr>,
      OUTPUT_FILENAME \<mapsto> \<lparr>csv_fieldnames = raw_fieldnames, csv_rows = []\<rparr>]"

chapter \<open>Properties\<close>

section \<open>Whitespace stripping\<close>

lemma dropWhile_strip_shape:
  "dropWhile P (rev (dropWhile P (rev (dropWhile P s)))) = rev (dropWhile P (rev (dropWhile P s)))"
proof (cases "dropWhile P (rev (dropWhile P s)) = []")
  case True
  show ?thesis unfolding True by simp
next
  case False
  define u where "u = dropWhile P s"
  from False have ne: "dropWhile P (rev u) \<noteq> []" by (simp add: u_def)
  then have "u \<noteq> []" by auto
  then have nP: "\<not> P (hd u)" unfolding u_def by (simp add: hd_dropWhile)
  have "last (dropWhile P (rev u)) = last (rev u)"
    using ne by (metis dropWhile_last dropWhile_eq_Nil_conv)
  then have "hd (rev (dropWhile P (rev u))) = hd u"
    using ne \<open>u \<noteq> []\<close> by (simp add: hd_rev last_rev)
  with nP ne have "dropWhile P (rev (dropWhile P (rev u))) = rev (dropWhile P (rev u))"
    by (cases "rev (dropWhile P (rev u))") auto
  then show ?thesis by (simp add: u_def)
qed

lemma strip_strip: "strip (strip s) = strip s"
proof -
  have "dropWhile isspace (strip s) = strip s"
    unfolding strip_def by (rule dropWhile_strip_shape)
  then have "strip (strip s) = rev (dropWhile isspace (rev (strip s)))"
    by (simp add: strip_def)
  also have "\<dots> = strip s"
    by (simp add: strip_def)
  finally show ?thesis .
qed

section \<open>Claims on the classifier and the planner table\<close>

text \<open>
  C1 (as stated, refuted): on the triple (go, " ped", "") the rules of the specification,
  read on the strings as given, fall through to UNKNOWN, while the code strips the blank and
  answers YIELD_PED.
\<close>

theorem C1_classify_unstripped_counterexample:
  "map_world_to_state ''go'' '' ped'' '''' = ''YIELD_PED'' \<and>
   spec_classify ''go'' '' ped'' '''' = ''UNKNOWN''"
  by (simp add: map_world_to_state_def spec_classify_def strip_def isspace_def)

text \<open>
  C1 (amended): for every string triple, \<open>map_world_to_state\<close> returns the state that the
  priority-ordered rules of the specification give on the triple with the surrounding
  whitespace of each component stripped; the result is always one of the nine states, with
  UNKNOWN as the catch-all, and no input raises.
\<close>

theorem C1_classify_rules_on_stripped:
  "map_world_to_state a y l = spec_classify (strip a) (strip y) (strip l) \<and>
   map_world_to_state a y l \<in> set all_states"
  by (simp add: map_world_to_state_def spec_classify_def all_states_def Let_def)

text \<open>
  C2 (as stated, refuted): the state " GO" is none of the states named in the table, so the
  table's last row (WAIT, unknown_state) applies to it; the code strips it and answers the
  GO row.
\<close>

theorem C2_synthesize_unstripped_counterexample:
  "map_state_to_planner '' GO'' =
     planner_dict (''GO'', ''corridor_clear'', '''', ''constraint_reappears'') \<and>
   spec_synthesize '' GO'' = (''WAIT'', ''unknown_state'', '''', ''state_resolved'')"
  by (simp add: map_state_to_planner_def spec_synthesize_def strip_def isspace_def)

text \<open>
  C2 (amended): for every state string, \<open>map_state_to_planner\<close> returns the record of the
  specification's table for the state with its surrounding whitespace stripped (all other
  strings, UNKNOWN included, get WAIT / unknown_state / "" / state_resolved); and for every
  state the classifier produces over all string triples the returned record is the table's
  row for that very state, a dict with the four keys.
\<close>

theorem C2_synthesize_table_on_stripped:
  "map_state_to_planner s = planner_dict (spec_synthesize (strip s)) \<and>
   map_state_to_planner (map_world_to_state a y l) =
     planner_dict (spec_synthesize (map_world_to_state a y l)) \<and>
   map fst (map_state_to_planner s) = [''planner_cmd'', ''reason'', ''target'', ''until'']"
proof -
  have tab: "map_state_to_planner s = planner_dict (spec_synthesize (strip s))" for s
    by (simp add: map_state_to_planner_def spec_synthesize_def Let_def)
  have st: "strip t = t" if "t \<in> set all_states" for t
    using that by (auto simp: all_states_def strip_def isspace_def)
  have cl: "map_world_to_state a y l \<in> set all_states"
    by (simp add: map_world_to_state_def all_states_def Let_def)
  have keys: "map fst (planner_dict r) = [''planner_cmd'', ''reason'', ''target'', ''until'']" for r
    by (cases r) (simp add: planner_dict_def)
  show ?thesis
    using tab st [OF cl] keys by simp
qed

text \<open>
  C10: both lookup functions are insensitive to surrounding whitespace: classifying a
  triple and classifying its stripped components agree, and so do planning a state and
  planning the stripped state; (" go ", none, none) is treated as (go, none, none).
\<close>

theorem C10_lookups_ignore_surrounding_whitespace:
  "map_world_to_state a y l = map_world_to_state (strip a) (strip y) (strip l) \<and>
   map_state_to_planner s = map_state_to_planner (strip s) \<and>
   map_world_to_state '' go '' ''none'' ''none'' = map_world_to_state ''go'' ''none'' ''none'' \<and>
   map_state_to_planner (map_world_to_state '' go '' ''none'' ''none'') =
     map_state_to_planner (map_world_to_state ''go'' ''none'' ''none'')"
proof -
  have 1: "map_world_to_state a y l = map_world_to_state (strip a) (strip y) (strip l)" for a y l
    by (simp add: map_world_to_state_def strip_strip)
  have 2: "map_state_to_planner s = map_state_to_planner (strip s)"
    by (simp add: map_state_to_planner_def strip_strip)
  have 3: "strip '' go '' = ''go''" "strip ''go'' = ''go''"
    by (simp_all add: strip_def isspace_def)
  have 4: "map_world_to_state '' go '' ''none'' ''none'' = map_world_to_state ''go'' ''none'' ''none''"
    using 1 [of "'' go ''" "''none''" "''none''"] 1 [of "''go''" "''none''" "''none''"] 3
    by simp
  show ?thesis using 1 2 4 by simp
qed

section \<open>The error monad\<close>

lemma ebind_Inr [simp]: "ebind (Inr x) f = f x"
  by (simp add: ebind_def)

lemma ebind_Inl [simp]: "ebind (Inl e) f = Inl e"
  by (simp add: ebind_def)

lemma ebind_eq_Inr: "ebind m f = Inr y \<longleftrightarrow> (\<exists>x. m = Inr x \<and> f x = Inr y)"
  by (cases m) simp_all

lemma emap_all_Inr: "(\<And>x. x \<in> set xs \<Longrightarrow> f x = Inr (g x)) \<Longrightarrow> emap f xs = Inr (map g xs)"
  by (induction xs) simp_all

section \<open>Counting and the first maximum\<close>

lemma set_uniq [simp]: "set (uniq xs) = set xs"
  by (induction xs rule: uniq.induct) auto

lemma distinct_uniq [simp]: "distinct (uniq xs)"
  by (induction xs rule: uniq.induct) auto

lemma uniq_snoc: "uniq (xs @ [x]) = (if x \<in> set xs then uniq xs else uniq xs @ [x])"
  by (induction xs rule: uniq.induct) auto

lemma update_map_present:
  "x \<in> set ks \<Longrightarrow> distinct ks \<Longrightarrow>
   AList.update x v (map (\<lambda>k. (k, f k)) ks) = map (\<lambda>k. (k, if k = x then v else f k)) ks"
  by (induction ks) auto

lemma update_map_absent:
  "x \<notin> set ks \<Longrightarrow> AList.update x v (map (\<lambda>k. (k, f k)) ks) = map (\<lambda>k. (k, f k)) ks @ [(x, v)]"
  by (induction ks) auto

lemma map_of_map_key: "map_of (map (\<lambda>k. (k, f k)) ks) x = (if x \<in> set ks then Some (f x) else None)"
  by (induction ks) auto

lemma Counter_uniq: "Counter xs = map (\<lambda>k. (k, count_list xs k)) (uniq xs)"
proof (induction xs rule: rev_induct)
  case Nil
  show ?case by (simp add: Counter_def)
next
  case (snoc x xs)
  have step: "Counter (xs @ [x]) = counter_add (Counter xs) x"
    by (simp add: Counter_def)
  show ?case
  proof (cases "x \<in> set xs")
    case True
    then show ?thesis
      unfolding step snoc.IH counter_add_def
      by (simp add: map_of_map_key update_map_present uniq_snoc)
  next
    case False
    then show ?thesis
      unfolding step snoc.IH counter_add_def
      by (auto simp: map_of_map_key update_map_absent uniq_snoc)
  qed
qed

lemma max_first_split:
  "\<exists>before after. best # ps = before @ max_first best ps # after \<and>
     (\<forall>p \<in> set before. snd p < snd (max_first best ps)) \<and>
     (\<forall>p \<in> set after. snd p \<le> snd (max_first best ps))"
proof (induction ps arbitrary: best)
  case Nil
  show ?case by (intro exI [of _ "[]"]) simp
next
  case (Cons p ps)
  show ?case
  proof (cases "snd best < snd p")
    case True
    then have eq: "max_first best (p # ps) = max_first p ps" by simp
    from Cons.IH [of p] obtain before after where
      s: "p # ps = before @ max_first p ps # after"
      and b: "\<forall>q \<in> set before. snd q < snd (max_first p ps)"
      and a: "\<forall>q \<in> set after. snd q \<le> snd (max_first p ps)"
      by blast
    have "p \<in> set (before @ max_first p ps # after)"
      using s by (metis list.set_intros(1))
    then have "snd p \<le> snd (max_first p ps)"
      using a b by auto
    with True have lt: "snd best < snd (max_first p ps)" by simp
    have "best # p # ps = (best # before) @ max_first p ps # after \<and>
        (\<forall>q \<in> set (best # before). snd q < snd (max_first p ps)) \<and>
        (\<forall>q \<in> set after. snd q \<le> snd (max_first p ps))"
      using s b a lt by simp
    then show ?thesis unfolding eq by blast
  next
    case False
    then have eq: "max_first best (p # ps) = max_first best ps" by simp
    from Cons.IH [of best] obtain before after where
      s: "best # ps = before @ max_first best ps # after"
      and b: "\<forall>q \<in> set before. snd q < snd (max_first best ps)"
      and a: "\<forall>q \<in> set after. snd q \<le> snd (max_first best ps)"
      by blast
    show ?thesis
    proof (cases before)
      case Nil
      with s have m: "max_first best ps = best" and af: "after = ps" by auto
      have "best # p # ps = [] @ max_first best ps # (p # ps) \<and>
          (\<forall>q \<in> set []. snd q < snd (max_first best ps)) \<and>
          (\<forall>q \<in> set (p # ps). snd q \<le> snd (max_first best ps))"
        using a False m af by simp
      then show ?thesis unfolding eq by blast
    next
      case (Cons b0 before')
      with s have b0: "b0 = best" and r: "ps = before' @ max_first best ps # after" by auto
      from b Cons b0 have "snd best < snd (max_first best ps)" by simp
      with False have "snd p < snd (max_first best ps)" by simp
      with b Cons b0 have "\<forall>q \<in> set (best # p # before'). snd q < snd (max_first best ps)"
        by simp
      moreover have "best # p # ps = (best # p # before') @ max_first best ps # after"
        using r by simp
      ultimately show ?thesis unfolding eq using a by blast
    qed
  qed
qed

lemma takeWhile_filter_neq:
  "v \<noteq> x \<Longrightarrow>
   takeWhile (\<lambda>y. y \<noteq> v) (filter (\<lambda>y. y \<noteq> x) ys) = filter (\<lambda>y. y \<noteq> x) (takeWhile (\<lambda>y. y \<noteq> v) ys)"
  by (induction ys) auto

lemma uniq_before_first_occurrence:
  "uniq xs = before @ r # after \<Longrightarrow> v \<in> set after \<Longrightarrow> r \<in> set (takeWhile (\<lambda>y. y \<noteq> v) xs)"
proof (induction xs arbitrary: before rule: uniq.induct)
  case 1
  then show ?case by simp
next
  case (2 x xs)
  show ?case
  proof (cases before)
    case Nil
    with "2.prems" have rx: "r = x" and af: "after = uniq (filter (\<lambda>y. y \<noteq> x) xs)" by auto
    from af "2.prems"(2) have "v \<noteq> x" by simp
    with rx show ?thesis by simp
  next
    case (Cons b0 before')
    with "2.prems" have b0: "b0 = x"
      and u: "uniq (filter (\<lambda>y. y \<noteq> x) xs) = before' @ r # after" by auto
    from u "2.prems"(2) have "v \<in> set (uniq (filter (\<lambda>y. y \<noteq> x) xs))" by simp
    then have vx: "v \<noteq> x" by simp
    from "2.IH" [OF u "2.prems"(2)]
    have "r \<in> set (takeWhile (\<lambda>y. y \<noteq> v) (filter (\<lambda>y. y \<noteq> x) xs))" .
    then have "r \<in> set (takeWhile (\<lambda>y. y \<noteq> v) xs)"
      by (simp add: takeWhile_filter_neq [OF vx])
    with vx show ?thesis by simp
  qed
qed

lemma most_common1_Counter:
  assumes "xs \<noteq> []"
  shows "\<exists>r. most_common1 (Counter xs) = [(r, count_list xs r)] \<and> first_most_frequent xs r"
proof -
  from assms obtain k ks where u: "uniq xs = k # ks"
    by (metis list.exhaust set_uniq set_empty)
  define c where "c = (\<lambda>k. (k, count_list xs k))"
  define m where "m = max_first (c k) (map c ks)"
  have mc: "most_common1 (Counter xs) = [m]"
    by (simp add: most_common1_def Counter_uniq u m_def c_def)
  from max_first_split [of "c k" "map c ks"] obtain before after where
    s: "c k # map c ks = before @ m # after"
    and b: "\<forall>p \<in> set before. snd p < snd m"
    and a: "\<forall>p \<in> set after. snd p \<le> snd m"
    unfolding m_def by blast
  from s have mapc: "map c (uniq xs) = before @ m # after" by (simp add: u)
  then obtain bs r as where bs: "uniq xs = bs @ r # as"
    and mb: "before = map c bs" and mr: "m = c r" and ma: "after = map c as"
    by (auto simp: map_eq_append_conv map_eq_Cons_conv)
  have rin: "r \<in> set xs"
    using bs by (metis in_set_conv_decomp set_uniq)
  have le: "count_list xs v \<le> count_list xs r" if "v \<in> set xs" for v
  proof -
    from that have "v \<in> set (uniq xs)" by simp
    then have "v \<in> set bs \<or> v = r \<or> v \<in> set as" by (auto simp: bs)
    then show ?thesis using a b by (auto simp: mb mr ma c_def)
  qed
  have first: "r \<in> set (takeWhile (\<lambda>y. y \<noteq> v) xs)"
    if "v \<in> set xs" "v \<noteq> r" "count_list xs v = count_list xs r" for v
  proof -
    from that(1) have "v \<in> set (uniq xs)" by simp
    then have "v \<in> set bs \<or> v = r \<or> v \<in> set as" by (auto simp: bs)
    moreover have "v \<notin> set bs" using b that(3) by (auto simp: mb mr c_def)
    ultimately have "v \<in> set as" using that(2) by simp
    with bs show ?thesis by (rule uniq_before_first_occurrence)
  qed
  show ?thesis
    using mc rin le first by (auto simp: mr c_def first_most_frequent_def)
qed

lemma majority_vote_empty:
  "filter truthy vals = [] \<Longrightarrow> majority_vote vals = Inr (VStr [])"
  by (simp add: majority_vote_def)

lemma majority_vote_nonempty:
  assumes "filter truthy vals \<noteq> []"
  shows "\<exists>r. majority_vote vals = Inr r \<and> first_most_frequent (filter truthy vals) r"
proof -
  from most_common1_Counter [OF assms] obtain r where
    "most_common1 (Counter (filter truthy vals)) = [(r, count_list (filter truthy vals) r)]"
    "first_most_frequent (filter truthy vals) r" by blast
  with assms show ?thesis by (auto simp: majority_vote_def)
qed

lemma count_list_filter: "P v \<Longrightarrow> count_list (filter P xs) v = count_list xs v"
  by (induction xs) auto

lemma takeWhile_filter_keep:
  "P u \<Longrightarrow>
   takeWhile (\<lambda>y. y \<noteq> u) (filter P xs) = filter P (takeWhile (\<lambda>y. y \<noteq> u) xs)"
  by (induction xs) auto

lemma first_most_frequent_nonempty:
  assumes "first_most_frequent (filter truthy vals) r"
  shows "most_frequent_nonempty vals r"
    and "\<forall>u \<in> set vals. truthy u \<and> u \<noteq> r \<and> count_list vals u = count_list vals r
           \<longrightarrow> r \<in> set (takeWhile (\<lambda>y. y \<noteq> u) vals)"
proof -
  from assms have r: "r \<in> set vals" "truthy r"
    by (auto simp: first_most_frequent_def)
  from assms have le: "count_list (filter truthy vals) u \<le> count_list (filter truthy vals) r"
    if "u \<in> set vals" "truthy u" for u
    using that by (auto simp: first_most_frequent_def)
  show "most_frequent_nonempty vals r"
    unfolding most_frequent_nonempty_def
    using r le by (auto simp: count_list_filter)
  show "\<forall>u \<in> set vals. truthy u \<and> u \<noteq> r \<and> count_list vals u = count_list vals r
           \<longrightarrow> r \<in> set (takeWhile (\<lambda>y. y \<noteq> u) vals)"
  proof (intro ballI impI)
    fix u
    assume u: "u \<in> set vals" and c: "truthy u \<and> u \<noteq> r \<and> count_list vals u = count_list vals r"
    with r have "count_list (filter truthy vals) u = count_list (filter truthy vals) r"
      by (simp add: count_list_filter)
    with assms u c have "r \<in> set (takeWhile (\<lambda>y. y \<noteq> u) (filter truthy vals))"
      by (auto simp: first_most_frequent_def)
    with c show "r \<in> set (takeWhile (\<lambda>y. y \<noteq> u) vals)"
      by (simp add: takeWhile_filter_keep)
  qed
qed

section \<open>Claim on the tie-break of the majority vote\<close>

text \<open>
  C6: on every window that holds a non-empty value, \<open>majority_vote\<close> returns a most
  frequent non-empty value \<open>r\<close>, and whenever another non-empty value \<open>u\<close> occurs as
  often as \<open>r\<close> (a tie at the highest frequency), \<open>r\<close> occurs in the window before the
  first occurrence of \<open>u\<close>: scanning left to right, the tie goes to the value seen first.
\<close>

theorem C6_majority_vote_tie_first_occurrence:
  assumes "\<exists>v \<in> set vals. truthy v"
  shows "\<exists>r. majority_vote vals = Inr r \<and> most_frequent_nonempty vals r \<and>
           (\<forall>u \<in> set vals. truthy u \<and> u \<noteq> r \<and> count_list vals u = count_list vals r
              \<longrightarrow> r \<in> set (takeWhile (\<lambda>y. y \<noteq> u) vals))"
proof -
  from assms have "filter truthy vals \<noteq> []"
    by (auto simp: filter_empty_conv)
  from majority_vote_nonempty [OF this] obtain r where
    r: "majority_vote vals = Inr r" "first_most_frequent (filter truthy vals) r" by blast
  from first_most_frequent_nonempty [OF r(2)] r(1) show ?thesis by blast
qed

theorem C6_majority_vote_tie_witness:
  "(\<exists>v \<in> set [VStr ''wait'', VStr '''', VStr ''go'', VStr ''go'', VStr ''wait'']. truthy v) \<and>
   majority_vote [VStr ''wait'', VStr '''', VStr ''go'', VStr ''go'', VStr ''wait'']
     = Inr (VStr ''wait'') \<and>
   count_list [VStr ''wait'', VStr '''', VStr ''go'', VStr ''go'', VStr ''wait''] (VStr ''go'')
     = count_list [VStr ''wait'', VStr '''', VStr ''go'', VStr ''go'', VStr ''wait''] (VStr ''wait'') \<and>
   VStr ''wait'' \<in> set (takeWhile (\<lambda>y. y \<noteq> VStr ''go'')
     [VStr ''wait'', VStr '''', VStr ''go'', VStr ''go'', VStr ''wait''])"
  using C6_majority_vote_tie_first_occurrence
    [of "[VStr ''wait'', VStr '''', VStr ''go'', VStr ''go'', VStr ''wait'']"]
  by (simp add: majority_vote_def Counter_def counter_add_def most_common1_def)

section \<open>The smoother\<close>

lemma py_slice_window3:
  assumes "i < length rows"
  shows "py_slice rows (max 0 (int i - 1)) (min (int (length rows) - 1) (int i + 1) + 1)
           = window3 rows i"
proof -
  define a where "a = i - 1"
  define b where "b = Suc (min (length rows - 1) (i + 1))"
  have ab: "a \<le> b" "b \<le> length rows"
    using assms by (auto simp: a_def b_def)
  have lo: "max 0 (int i - 1) = int a"
    by (auto simp: a_def)
  have hi: "min (int (length rows) - 1) (int i + 1) + 1 = int b"
    using assms by (auto simp: b_def min_def)
  have "py_slice rows (int a) (int b) = take (b - a) (drop a rows)"
    using ab by (simp add: py_slice_def Let_def min_def nat_diff_distrib')
  also have "\<dots> = map (\<lambda>j. rows ! j) [a..<b]"
    using ab by (auto simp: list_eq_iff_nth_eq)
  finally show ?thesis
    unfolding lo hi window3_def a_def b_def .
qed

lemma set_window3: "i < length xs \<Longrightarrow> set (window3 xs i) \<subseteq> set xs"
  by (auto simp: window3_def)

lemma window3_map: "i < length xs \<Longrightarrow> window3 (map f xs) i = map f (window3 xs i)"
  by (auto simp: window3_def)

lemma getitem_field: "map_of d k \<noteq> None \<Longrightarrow> getitem d k = Inr (field d k)"
  by (auto simp: getitem_def field_def)

lemma getitem_update_other [simp]: "k \<noteq> k' \<Longrightarrow> getitem (AList.update k v d) k' = getitem d k'"
  by (simp add: getitem_def update_conv')

lemma majority_vote_total:
  "\<exists>s. majority_vote vals = Inr s \<and>
     (if \<exists>v \<in> set vals. truthy v then most_frequent_nonempty vals s else s = VStr [])"
proof (cases "\<exists>v \<in> set vals. truthy v")
  case True
  then have "filter truthy vals \<noteq> []"
    by (auto simp: filter_empty_conv)
  from majority_vote_nonempty [OF this] obtain r where
    "majority_vote vals = Inr r" "first_most_frequent (filter truthy vals) r" by blast
  with first_most_frequent_nonempty(1) [of vals r] True show ?thesis by auto
next
  case False
  then have "filter truthy vals = []"
    by (auto simp: filter_empty_conv)
  with False show ?thesis by (simp add: majority_vote_empty)
qed

lemma smoothed_pick:
  "\<exists>v. ebind (majority_vote vals) (\<lambda>s. py_or s (Inr raw)) = Inr v \<and>
        smoothed_as_specified vals raw v"
proof -
  from majority_vote_total [of vals] obtain s where
    s: "majority_vote vals = Inr s"
    and c: "if \<exists>v \<in> set vals. truthy v then most_frequent_nonempty vals s else s = VStr []"
    by blast
  show ?thesis
  proof (cases "\<exists>v \<in> set vals. truthy v")
    case True
    with c have "most_frequent_nonempty vals s" by simp
    with True s show ?thesis
      by (auto simp: py_or_def smoothed_as_specified_def most_frequent_nonempty_def)
  next
    case False
    with c have "s = VStr []" by simp
    with False s show ?thesis
      by (auto simp: py_or_def smoothed_as_specified_def)
  qed
qed

lemma smooth_step_alloc:
  "smooth_step h rows half i = Inr (h', row) \<Longrightarrow> \<exists>d. h' = h @ [d] \<and> row = length h"
  unfolding smooth_step_def Let_def
  by (auto simp: ebind_eq_Inr setitem_def)

lemma smooth_loop_extends:
  "\<exists>ex. fst (smooth_loop h rows half js acc) = h @ ex"
proof (induction js arbitrary: h acc)
  case Nil
  show ?case by simp
next
  case (Cons i js)
  show ?case
  proof (cases "smooth_step h rows half i")
    case (Inl e)
    then show ?thesis by simp
  next
    case (Inr p)
    obtain h' row where p: "p = (h', row)" by (cases p)
    from smooth_step_alloc [OF Inr [unfolded p]] obtain d where h': "h' = h @ [d]" by blast
    from Cons.IH [of h' "acc @ [row]"] obtain ex where
      "fst (smooth_loop h' rows half js (acc @ [row])) = h' @ ex" by blast
    with Inr p h' show ?thesis by simp
  qed
qed

lemma smooth_step_labels:
  assumes i: "i < length rows"
    and lab: "\<forall>r \<in> set rows. has_labels (h ! r)"
  shows "\<exists>d'. smooth_step h rows 1 i = Inr (h @ [d'], length h) \<and>
           smoothed_row_ok (map (\<lambda>r. h ! r) rows) i d'"
proof -
  define cs where "cs = map (\<lambda>r. h ! r) rows"
  define d where "d = h ! (rows ! i)"
  have d: "d = cs ! i" using i by (simp add: cs_def d_def)
  have labd: "has_labels d" using lab i by (simp add: d_def)
  have win: "py_slice rows (max 0 (int i - 1)) (min (int (length rows) - 1) (int i + 1) + 1)
           = window3 rows i"
    using i by (rule py_slice_window3)
  have vals: "emap (\<lambda>r. getitem (h ! r) k) (window3 rows i)
      = Inr (map (\<lambda>d. field d k) (window3 cs i))"
    if "k = ''affordance'' \<or> k = ''yield_to'' \<or> k = ''lead_state''" for k
  proof -
    have "emap (\<lambda>r. getitem (h ! r) k) (window3 rows i)
        = Inr (map (\<lambda>r. field (h ! r) k) (window3 rows i))"
    proof (rule emap_all_Inr)
      fix r assume "r \<in> set (window3 rows i)"
      with set_window3 [OF i] have "r \<in> set rows" by blast
      with lab that have "map_of (h ! r) k \<noteq> None" by (auto simp: has_labels_def)
      then show "getitem (h ! r) k = Inr (field (h ! r) k)" by (rule getitem_field)
    qed
    then show ?thesis
      by (simp add: cs_def window3_map [OF i] comp_def)
  qed
  define va where "va = map (\<lambda>d. field d ''affordance'') (window3 cs i)"
  define vy where "vy = map (\<lambda>d. field d ''yield_to'') (window3 cs i)"
  define vl where "vl = map (\<lambda>d. field d ''lead_state'') (window3 cs i)"
  from smoothed_pick [of va "field d ''affordance''"] obtain sa where
    sa: "ebind (majority_vote va) (\<lambda>s. py_or s (Inr (field d ''affordance''))) = Inr sa"
      "smoothed_as_specified va (field d ''affordance'') sa" by blast
  from smoothed_pick [of vy "field d ''yield_to''"] obtain sy where
    sy: "ebind (majority_vote vy) (\<lambda>s. py_or s (Inr (field d ''yield_to''))) = Inr sy"
      "smoothed_as_specified vy (field d ''yield_to'') sy" by blast
  from smoothed_pick [of vl "field d ''lead_state''"] obtain sl where
    sl: "ebind (majority_vote vl) (\<lambda>s. py_or s (Inr (field d ''lead_state''))) = Inr sl"
      "smoothed_as_specified vl (field d ''lead_state'') sl" by blast
  from sa(1) obtain ma where ma: "majority_vote va = Inr ma" "py_or ma (Inr (field d ''affordance'')) = Inr sa"
    by (auto simp: ebind_eq_Inr)
  from sy(1) obtain my where my: "majority_vote vy = Inr my" "py_or my (Inr (field d ''yield_to'')) = Inr sy"
    by (auto simp: ebind_eq_Inr)
  from sl(1) obtain ml where ml: "majority_vote vl = Inr ml" "py_or ml (Inr (field d ''lead_state'')) = Inr sl"
    by (auto simp: ebind_eq_Inr)
  have g: "getitem d ''affordance'' = Inr (field d ''affordance'')"
    "getitem d ''yield_to'' = Inr (field d ''yield_to'')"
    "getitem d ''lead_state'' = Inr (field d ''lead_state'')"
    using labd by (simp_all add: has_labels_def getitem_field)
  define d' where "d' = AList.update ''lead_state_smoothed'' sl
               (AList.update ''yield_to_smoothed'' sy
                 (AList.update ''affordance_smoothed'' sa d))"
  have "smooth_step h rows 1 i = Inr (h @ [d'], length h)"
    unfolding smooth_step_def Let_def win
    using ma my ml g
    by (simp add: vals va_def [symmetric] vy_def [symmetric] vl_def [symmetric]
        d_def [symmetric] setitem_def d'_def)
  moreover have "smoothed_row_ok cs i d'"
    unfolding smoothed_row_ok_def d [symmetric] va_def [symmetric] vy_def [symmetric]
      vl_def [symmetric]
    using sa(2) sy(2) sl(2) d'_def by blast
  ultimately show ?thesis unfolding cs_def by blast
qed

lemma smooth_loop_labels:
  assumes "\<forall>r \<in> set rows. r < length h \<and> has_labels (h ! r)"
    and "\<forall>i \<in> set js. i < length rows"
  shows "\<exists>h'. smooth_loop h rows 1 js acc = (h', Inr (acc @ [length h ..< length h + length js])) \<and>
           length h' = length h + length js \<and>
           (\<forall>r < length h. h' ! r = h ! r) \<and>
           (\<forall>k < length js. smoothed_row_ok (map (\<lambda>r. h ! r) rows) (js ! k) (h' ! (length h + k)))"
  using assms
proof (induction js arbitrary: h acc)
  case Nil
  show ?case by simp
next
  case (Cons i js)
  from Cons.prems have i: "i < length rows" and lab: "\<forall>r \<in> set rows. has_labels (h ! r)"
    by simp_all
  from smooth_step_labels [OF i lab] obtain d' where
    st: "smooth_step h rows 1 i = Inr (h @ [d'], length h)"
    and ok: "smoothed_row_ok (map (\<lambda>r. h ! r) rows) i d'" by blast
  define h1 where "h1 = h @ [d']"
  have same: "h1 ! r = h ! r" if "r < length h" for r
    using that by (simp add: h1_def nth_append)
  have cs: "map (\<lambda>r. h1 ! r) rows = map (\<lambda>r. h ! r) rows"
    using Cons.prems(1) same by simp
  have p1: "\<forall>r \<in> set rows. r < length h1 \<and> has_labels (h1 ! r)"
    using Cons.prems(1) same by (auto simp: h1_def)
  have p2: "\<forall>i \<in> set js. i < length rows"
    using Cons.prems(2) by simp
  from Cons.IH [OF p1 p2, of "acc @ [length h]"] obtain h' where
    run: "smooth_loop h1 rows 1 js (acc @ [length h])
        = (h', Inr ((acc @ [length h]) @ [length h1 ..< length h1 + length js]))"
    and len: "length h' = length h1 + length js"
    and keep: "\<forall>r < length h1. h' ! r = h1 ! r"
    and oks: "\<forall>k < length js. smoothed_row_ok (map (\<lambda>r. h1 ! r) rows) (js ! k) (h' ! (length h1 + k))"
    by blast
  have l1: "length h1 = Suc (length h)" by (simp add: h1_def)
  have "[length h ..< length h + Suc (length js)]
      = length h # [Suc (length h) ..< length h + Suc (length js)]"
    by (rule upt_conv_Cons) simp
  then have out: "(acc @ [length h]) @ [length h1 ..< length h1 + length js]
      = acc @ [length h ..< length h + length (i # js)]"
    by (simp add: l1)
  have "smooth_loop h rows 1 (i # js) acc = (h', Inr (acc @ [length h ..< length h + length (i # js)]))"
    using st run out by (simp add: h1_def)
  moreover have "length h' = length h + length (i # js)"
    using len l1 by simp
  moreover have "\<forall>r < length h. h' ! r = h ! r"
    using keep same l1 by simp
  moreover have "\<forall>k < length (i # js).
      smoothed_row_ok (map (\<lambda>r. h ! r) rows) ((i # js) ! k) (h' ! (length h + k))"
  proof (intro allI impI)
    fix k assume k: "k < length (i # js)"
    show "smoothed_row_ok (map (\<lambda>r. h ! r) rows) ((i # js) ! k) (h' ! (length h + k))"
    proof (cases k)
      case 0
      have "h' ! length h = h1 ! length h" using keep l1 by simp
      also have "\<dots> = d'" by (simp add: h1_def)
      finally show ?thesis using ok 0 by simp
    next
      case (Suc k')
      with k have "k' < length js" by simp
      with oks have "smoothed_row_ok (map (\<lambda>r. h1 ! r) rows) (js ! k') (h' ! (length h1 + k'))"
        by simp
      then show ?thesis using Suc cs l1 by simp
    qed
  qed
  ultimately show ?case by blast
qed

lemma smooth_sequence_frame:
  "\<forall>r < length h. fst (smooth_sequence h rows window) ! r = h ! r"
proof -
  from smooth_loop_extends [of h rows "window div 2" "[0..<length rows]" "[]"]
  obtain ex where "fst (smooth_sequence h rows window) = h @ ex"
    unfolding smooth_sequence_def by blast
  then show ?thesis by (simp add: nth_append)
qed

section \<open>Claim on the smoother\<close>

text \<open>
  C5: for a clip's list of rows that carry the three labels and window size 3,
  \<open>smooth_sequence\<close> returns one new row per input row, in input order; the row of
  position \<open>i\<close> is input row \<open>i\<close> with the three smoothed entries stored, where each
  attribute on its own is a most frequent non-empty value among the rows at the positions
  \<open>max(0, i - 1)\<close> to \<open>min(n - 1, i + 1)\<close>, or the raw value of row \<open>i\<close> when every value of
  the attribute in the window is empty. The result is a function of the contents of the
  clip's rows alone.
\<close>

theorem C5_smooth_sequence_window_majority:
  assumes "\<forall>r \<in> set rows. r < length h \<and> has_labels (h ! r)"
  shows "\<exists>h'. smooth_sequence h rows 3 = (h', Inr [length h ..< length h + length rows]) \<and>
           length h' = length h + length rows \<and>
           (\<forall>i < length rows.
              smoothed_row_ok (map (\<lambda>r. h ! r) rows) i (h' ! (length h + i)))"
proof -
  have js: "\<forall>i \<in> set [0..<length rows]. i < length rows" by simp
  have half: "(3::int) div 2 = 1" by simp
  from smooth_loop_labels [OF assms js, of "[]"] show ?thesis
    unfolding smooth_sequence_def half by auto
qed

theorem C5_smooth_sequence_witness:
  "has_labels (example_heap ! 0) \<and> has_labels (example_heap ! 1) \<and>
   has_labels (example_heap ! 2) \<and>
   smooth_sequence example_heap [0, 1, 2] 3 =
     (example_heap @
        [with_smoothed (example_row 10 ''wait'') ''wait'' ''none'' ''none'',
         with_smoothed (example_row 11 ''go'') ''wait'' ''none'' ''none'',
         with_smoothed (example_row 12 ''wait'') ''go'' ''none'' ''none''],
      Inr [3, 4, 5])"
proof -
  have hyp: "\<forall>r \<in> set [0, 1, 2]. r < length example_heap \<and> has_labels (example_heap ! r)"
    by (simp add: example_heap_def example_row_def has_labels_def)
  have run: "smooth_sequence example_heap [0, 1, 2] 3 =
     (example_heap @
        [with_smoothed (example_row 10 ''wait'') ''wait'' ''none'' ''none'',
         with_smoothed (example_row 11 ''go'') ''wait'' ''none'' ''none'',
         with_smoothed (example_row 12 ''wait'') ''go'' ''none'' ''none''],
      Inr [3, 4, 5])"
    by code_simp
  from C5_smooth_sequence_window_majority [OF hyp] hyp run show ?thesis
    by simp
qed

section \<open>The reinjector\<close>

lemma dict_get_update_other [simp]:
  "k \<noteq> k' \<Longrightarrow> dict_get (AList.update k v d) k' x = dict_get d k' x"
  by (simp add: dict_get_def update_conv')





section \<open>Claim on the reinjector\<close>



lemma label_values_strip_invariant: "s \<in> set label_values \<Longrightarrow> strip s = s"
  by (auto simp: label_values_def strip_def isspace_def)



section \<open>Claim on copies and in-place updates\<close>

text \<open>
  C9 (the code at the failing input): \<open>reinject_go_short\<close> on a store holding one smoothed
  row, passed as the list of that one object. After the call the input object itself (at
  address 0) carries the three \<open>*_final\<close> entries, so it is no longer the row that was
  passed in, and the returned list holds that same object, not a copy. (\<open>smooth_sequence\<close>
  does copy: lemma \<open>smooth_sequence_frame\<close>.)
\<close>

theorem C9_reinject_go_short_updates_input_in_place:
  "reinject_go_short (\<lambda>s. None) Map.empty
       [with_smoothed (example_row 10 ''wait'') ''wait'' ''none'' ''none''] [0] =
     ([with_final (with_smoothed (example_row 10 ''wait'') ''wait'' ''none'' ''none'')
         ''wait'' ''none'' ''none''], Inr [0]) \<and>
   fst (reinject_go_short (\<lambda>s. None) Map.empty
       [with_smoothed (example_row 10 ''wait'') ''wait'' ''none'' ''none''] [0]) ! 0
     \<noteq> [with_smoothed (example_row 10 ''wait'') ''wait'' ''none'' ''none''] ! 0 \<and>
   getitem ([with_smoothed (example_row 10 ''wait'') ''wait'' ''none'' ''none''] ! 0)
       ''affordance_final'' = Inl KeyError \<and>
   getitem (fst (reinject_go_short (\<lambda>s. None) Map.empty
       [with_smoothed (example_row 10 ''wait'') ''wait'' ''none'' ''none''] [0]) ! 0)
       ''affordance_final'' = Inr (VStr ''wait'')"
  by (simp add: reinject_go_short_def final_triple_def set_final_def with_smoothed_def
      with_final_def example_row_def getitem_def dict_get_def py_strip_def py_int_def
      strip_def isspace_def)

section \<open>Maximal runs\<close>

lemma maximal_runs_Nil_iff [simp]: "maximal_runs link xs = [] \<longleftrightarrow> xs = []"
  by (induction link xs rule: maximal_runs.induct) (auto split: list.splits)

lemma concat_maximal_runs [simp]: "concat (maximal_runs link xs) = xs"
  by (induction link xs rule: maximal_runs.induct) (auto split: list.splits)

lemma hd_hd_maximal_runs: "xs \<noteq> [] \<Longrightarrow> hd (hd (maximal_runs link xs)) = hd xs"
  by (induction link xs rule: maximal_runs.induct) (auto split: list.splits)

lemma maximal_runs_chains:
  "g \<in> set (maximal_runs link xs) \<Longrightarrow> g \<noteq> [] \<and> successively link g"
proof (induction link xs arbitrary: g rule: maximal_runs.induct)
  case (1 link)
  then show ?case by simp
next
  case (2 link x)
  then show ?case by simp
next
  case (3 link x y zs)
  obtain h hs where r: "maximal_runs link (y # zs) = h # hs"
    by (cases "maximal_runs link (y # zs)") simp_all
  have hy: "hd h = y"
    using hd_hd_maximal_runs [of "y # zs" link] r by simp
  show ?case
  proof (cases "link x y")
    case True
    with "3.prems" r have "g = x # h \<or> g \<in> set hs" by simp
    then show ?thesis
    proof
      assume g: "g = x # h"
      from "3.IH"(1) [OF True, of h] r have "h \<noteq> [] \<and> successively link h" by simp
      with g True hy show ?thesis by (cases h) auto
    next
      assume "g \<in> set hs"
      with "3.IH"(1) [OF True, of g] r show ?thesis by simp
    qed
  next
    case False
    with "3.prems" have "g = [x] \<or> g \<in> set (maximal_runs link (y # zs))" by simp
    then show ?thesis
      using "3.IH"(2) [OF False, of g] by auto
  qed
qed

lemma maximal_runs_boundaries:
  "Suc i < length (maximal_runs link xs) \<Longrightarrow>
   \<not> link (last (maximal_runs link xs ! i)) (hd (maximal_runs link xs ! Suc i))"
proof (induction link xs arbitrary: i rule: maximal_runs.induct)
  case (1 link)
  then show ?case by simp
next
  case (2 link x)
  then show ?case by simp
next
  case (3 link x y zs)
  obtain h hs where r: "maximal_runs link (y # zs) = h # hs"
    by (cases "maximal_runs link (y # zs)") simp_all
  have hne: "h \<noteq> []"
    using maximal_runs_chains [of h link "y # zs"] r by simp
  show ?case
  proof (cases "link x y")
    case True
    then have m: "maximal_runs link (x # y # zs) = (x # h) # hs" using r by simp
    from "3.prems" m have i: "Suc i < length (h # hs)" by simp
    from "3.IH"(1) [OF True, of i] i r
    have "\<not> link (last ((h # hs) ! i)) (hd ((h # hs) ! Suc i))" by simp
    then show ?thesis
      unfolding m using hne by (cases i) simp_all
  next
    case False
    then have m: "maximal_runs link (x # y # zs) = [x] # h # hs" using r by simp
    show ?thesis
    proof (cases i)
      case 0
      have "hd h = y"
        using hd_hd_maximal_runs [of "y # zs" link] r by simp
      with False 0 show ?thesis unfolding m by simp
    next
      case (Suc j)
      with "3.prems" m have "Suc j < length (h # hs)" by simp
      from "3.IH"(2) [OF False, of j] this r
      have "\<not> link (last ((h # hs) ! j)) (hd ((h # hs) ! Suc j))" by simp
      then show ?thesis unfolding m Suc by simp
    qed
  qed
qed

lemma maximal_runs_single:
  "g \<noteq> [] \<Longrightarrow> successively link g \<Longrightarrow> maximal_runs link g = [g]"
  by (induction link g rule: maximal_runs.induct) auto

lemma maximal_runs_break:
  "g \<noteq> [] \<Longrightarrow> successively link g \<Longrightarrow> \<not> link (last g) r \<Longrightarrow>
   maximal_runs link (g @ r # rs) = g # maximal_runs link (r # rs)"
  by (induction link g rule: maximal_runs.induct) auto

lemma successively_snoc:
  "successively link (g @ [r]) \<longleftrightarrow> successively link g \<and> (g = [] \<or> link (last g) r)"
  by (auto simp: successively_append_iff)

lemma same_run_key_const:
  "successively (same_run key) g \<Longrightarrow> x \<in> set g \<Longrightarrow> key x = key (hd g)"
proof (induction g arbitrary: x rule: induct_list012)
  case 1
  then show ?case by simp
next
  case (2 a)
  then show ?case by simp
next
  case (3 a b g)
  from "3.prems"(1) have ab: "key b = key a" and s: "successively (same_run key) (b # g)"
    by (simp_all add: same_run_def)
  from "3.prems"(2) have "x = a \<or> x \<in> set (b # g)" by auto
  then show ?case
    using "3.IH"(2) [OF s, of x] ab by auto
qed

section \<open>Sorting by a computed key\<close>

lemma insort_key_zip:
  "\<forall>p \<in> set ps. fst p = f (snd p) \<Longrightarrow>
   map snd (insort_key fst (f x, x) ps) = insort_key f x (map snd ps)"
  by (induction ps) auto

lemma set_insort_key_zip:
  "\<forall>p \<in> set ps. fst p = f (snd p) \<Longrightarrow> \<forall>p \<in> set (insort_key fst (f x, x) ps). fst p = f (snd p)"
  by (auto simp: set_insort_key)

lemma sort_key_zip_aux:
  "map snd (sort_key fst (zip (map f xs) xs)) = sort_key f xs \<and>
   (\<forall>p \<in> set (sort_key fst (zip (map f xs) xs)). fst p = f (snd p))"
proof (induction xs)
  case Nil
  show ?case by simp
next
  case (Cons x xs)
  then show ?case
    by (auto simp: insort_key_zip set_insort_key)
qed

lemma sort_key_zip: "map snd (sort_key fst (zip (map f xs) xs)) = sort_key f xs"
  using sort_key_zip_aux [of f xs] by simp

lemma insort_key_eq_on:
  "f x = g x \<Longrightarrow> \<forall>y \<in> set ys. f y = g y \<Longrightarrow> insort_key f x ys = insort_key g x ys"
  by (induction ys) auto

lemma sort_key_eq_on: "\<forall>x \<in> set xs. f x = g x \<Longrightarrow> sort_key f xs = sort_key g xs"
proof (induction xs)
  case Nil
  show ?case by simp
next
  case (Cons x xs)
  then have "sort_key f xs = sort_key g xs" by simp
  moreover have "insort_key f x (sort_key g xs) = insort_key g x (sort_key g xs)"
    using Cons.prems by (intro insort_key_eq_on) simp_all
  ultimately show ?case by simp
qed

lemma py_sorted_int_keys:
  assumes "\<forall>x \<in> set xs. \<exists>i. f x = Inr (VInt i)"
  shows "py_sorted f xs = Inr (sort_key (\<lambda>x. int_of (projr (f x))) xs)"
proof -
  have e: "emap f xs = Inr (map (\<lambda>x. projr (f x)) xs)"
    using assms by (intro emap_all_Inr) auto
  have "list_all is_int (map (\<lambda>x. projr (f x)) xs)"
    using assms by (auto simp: list_all_iff is_int_def)
  then show ?thesis
    unfolding py_sorted_def e
    using sort_key_zip [of "\<lambda>x. int_of (projr (f x))" xs]
    by (simp add: comp_def)
qed

lemma has_int_frame:
  "has_int r ''frame_index'' \<Longrightarrow> getitem r ''frame_index'' = Inr (VInt (frame_of r))"
  by (auto simp: has_int_def getitem_def frame_of_def field_def int_of_def is_int_def
      split: option.splits pyval.splits)

lemma py_sorted_frames:
  assumes "\<forall>r \<in> set rows. has_int r ''frame_index''"
  shows "py_sorted (\<lambda>r. getitem r ''frame_index'') rows = Inr (sort_key frame_of rows)"
proof -
  have "py_sorted (\<lambda>r. getitem r ''frame_index'') rows
      = Inr (sort_key (\<lambda>r. int_of (projr (getitem r ''frame_index''))) rows)"
    using assms by (intro py_sorted_int_keys) (auto simp: has_int_frame)
  also have "sort_key (\<lambda>r. int_of (projr (getitem r ''frame_index''))) rows = sort_key frame_of rows"
  proof -
    have "\<forall>r \<in> set rows. int_of (projr (getitem r ''frame_index'')) = frame_of r"
      using assms by (auto simp: has_int_frame int_of_def)
    then show ?thesis by (rule sort_key_eq_on)
  qed
  finally show ?thesis .
qed

section \<open>The phase segmenter\<close>

lemma smoothed_row_reads:
  assumes "smoothed_row r"
  shows "phase_key r = Inr (smoothed_key r)"
    and "getitem r ''frame_index'' = Inr (VInt (frame_of r))"
    and "field r ''frame_index'' = VInt (frame_of r)"
proof -
  from assms show "phase_key r = Inr (smoothed_key r)"
    by (simp add: smoothed_row_def phase_key_def smoothed_key_def getitem_field)
  from assms show g: "getitem r ''frame_index'' = Inr (VInt (frame_of r))"
    by (simp add: smoothed_row_def has_int_frame)
  then show "field r ''frame_index'' = VInt (frame_of r)"
    by (auto simp: getitem_def field_def split: option.splits)
qed

lemma close_phase_segment_of:
  "close_phase (field (hd g) ''frame_index'') (field (last g) ''frame_index'') (smoothed_key (hd g))
   = phase_segment_of g"
  by (simp add: close_phase_def phase_segment_of_def smoothed_key_def)

lemma segment_clip_loop_runs:
  assumes "g \<noteq> []" and "successively (same_run smoothed_key) g"
    and "\<forall>r \<in> set (g @ rs). smoothed_row r"
  shows "segment_clip_loop (field (hd g) ''frame_index'') (field (last g) ''frame_index'')
           (smoothed_key (hd g)) segments rs
         = Inr (segments @ map phase_segment_of (maximal_runs (same_run smoothed_key) (g @ rs)))"
  using assms
proof (induction rs arbitrary: g segments)
  case Nil
  then show ?case
    by (simp add: maximal_runs_single close_phase_segment_of)
next
  case (Cons r rs)
  from Cons.prems have r: "smoothed_row r" and lg: "smoothed_row (last g)" by simp_all
  have klast: "smoothed_key (last g) = smoothed_key (hd g)"
    using same_run_key_const [OF Cons.prems(2), of "last g"] Cons.prems(1) by simp
  have cond: "ebind (if smoothed_key r = smoothed_key (hd g)
        then ebind (py_add1 (field (last g) ''frame_index'')) (\<lambda>e1. Inr (VInt (frame_of r) = e1))
        else Inr False) f
      = f (same_run smoothed_key (last g) r)" for f :: "bool \<Rightarrow> error + phase_segment list"
    using smoothed_row_reads(3) [OF lg] klast
    by (auto simp: py_add1_def same_run_def)
  show ?case
  proof (cases "same_run smoothed_key (last g) r")
    case True
    have g1: "g @ [r] \<noteq> []" by simp
    have s1: "successively (same_run smoothed_key) (g @ [r])"
      using Cons.prems(2) True by (simp add: successively_snoc)
    have a1: "\<forall>x \<in> set ((g @ [r]) @ rs). smoothed_row x"
      using Cons.prems(3) by simp
    from Cons.IH [OF g1 s1 a1, of segments] Cons.prems(1)
    have "segment_clip_loop (field (hd g) ''frame_index'') (field r ''frame_index'')
           (smoothed_key (hd g)) segments rs
         = Inr (segments @ map phase_segment_of (maximal_runs (same_run smoothed_key) (g @ r # rs)))"
      by simp
    with True show ?thesis
      using smoothed_row_reads [OF r] cond by simp
  next
    case False
    have a1: "\<forall>x \<in> set ([r] @ rs). smoothed_row x"
      using Cons.prems(3) by simp
    from Cons.IH [of "[r]" "segments @ [phase_segment_of g]"] a1
    have "segment_clip_loop (field r ''frame_index'') (field r ''frame_index'')
           (smoothed_key r) (segments @ [phase_segment_of g]) rs
         = Inr ((segments @ [phase_segment_of g])
              @ map phase_segment_of (maximal_runs (same_run smoothed_key) (r # rs)))"
      by simp
    with False show ?thesis
      using smoothed_row_reads [OF r] cond
        maximal_runs_break [OF Cons.prems(1,2) False, of rs]
      by (simp add: close_phase_segment_of)
  qed
qed

lemma segment_clip_runs:
  assumes "\<forall>r \<in> set rows. smoothed_row r"
  shows "segment_clip rows
         = Inr (map phase_segment_of (maximal_runs (same_run smoothed_key) rows))"
proof (cases rows)
  case Nil
  then show ?thesis by (simp add: segment_clip_def)
next
  case (Cons r0 rest)
  with assms have r0: "smoothed_row r0" by simp
  from segment_clip_loop_runs [of "[r0]" rest "[]"] assms Cons
  have "segment_clip_loop (field r0 ''frame_index'') (field r0 ''frame_index'')
           (smoothed_key r0) [] rest
         = Inr (map phase_segment_of (maximal_runs (same_run smoothed_key) rows))"
    by simp
  then show ?thesis
    using Cons smoothed_row_reads [OF r0] by (simp add: segment_clip_def)
qed

section \<open>The state segmenter\<close>

lemma has_str_reads:
  "has_str r k \<Longrightarrow> getitem r k = Inr (field r k) \<and> field r k = VStr (str_of (field r k))"
  by (auto simp: has_str_def getitem_def field_def is_str_def str_of_def
      split: option.splits pyval.splits)

lemma final_row_reads:
  assumes "final_row r"
  shows "getitem r ''frame_index'' = Inr (VInt (frame_of r))"
    and "getitem r ''affordance_final'' = Inr (field r ''affordance_final'')"
    and "getitem r ''yield_to_final'' = Inr (field r ''yield_to_final'')"
    and "getitem r ''lead_state_final'' = Inr (field r ''lead_state_final'')"
    and "classify_values (field r ''affordance_final'') (field r ''yield_to_final'')
           (field r ''lead_state_final'') = Inr (final_state r)"
proof -
  from assms have a: "has_str r ''affordance_final''" and y: "has_str r ''yield_to_final''"
    and l: "has_str r ''lead_state_final''" and f: "has_int r ''frame_index''"
    by (simp_all add: final_row_def)
  show "getitem r ''frame_index'' = Inr (VInt (frame_of r))"
    using f by (rule has_int_frame)
  show "getitem r ''affordance_final'' = Inr (field r ''affordance_final'')"
    using has_str_reads [OF a] by simp
  show "getitem r ''yield_to_final'' = Inr (field r ''yield_to_final'')"
    using has_str_reads [OF y] by simp
  show "getitem r ''lead_state_final'' = Inr (field r ''lead_state_final'')"
    using has_str_reads [OF l] by simp
  obtain a' y' l' where "field r ''affordance_final'' = VStr a'"
    "field r ''yield_to_final'' = VStr y'" "field r ''lead_state_final'' = VStr l'"
    using has_str_reads [OF a] has_str_reads [OF y] has_str_reads [OF l] by blast
  then show "classify_values (field r ''affordance_final'') (field r ''yield_to_final'')
           (field r ''lead_state_final'') = Inr (final_state r)"
    by (simp add: classify_values_def final_state_def str_of_def)
qed

text \<open>The open segment of the loop when the rows of \<open>g\<close> are the run read so far.\<close>

lemma segment_states_loop_runs:
  assumes "g \<noteq> []" and "successively (same_run final_state) g"
    and "\<forall>r \<in> set (g @ rs). final_row r"
  shows "ebind (segment_states_loop p clip
            (Some \<lparr>current_state = final_state (hd g), current_start = frame_of (hd g),
                   current_end = frame_of (last g),
                   current_aff = field (hd g) ''affordance_final'',
                   current_y = field (hd g) ''yield_to_final'',
                   current_l = field (hd g) ''lead_state_final''\<rparr>)
            seg_id segments rs)
          (\<lambda>res. case res of (cur, seg_id', segments') \<Rightarrow>
             (case cur of
                None \<Rightarrow> Inr segments'
              | Some c \<Rightarrow> Inr (segments' @ [close_state clip seg_id' c])))
         = Inr (segments @ map (state_segment_of clip)
                  (List.enumerate seg_id (maximal_runs (same_run final_state) (g @ rs))))"
  using assms
proof (induction rs arbitrary: g seg_id segments)
  case Nil
  then show ?case
    by (simp add: maximal_runs_single state_segment_of_def close_state_def)
next
  case (Cons r rs)
  from Cons.prems have r: "final_row r" by simp
  have klast: "final_state (last g) = final_state (hd g)"
    using same_run_key_const [OF Cons.prems(2), of "last g"] Cons.prems(1) by simp
  define C where "C = \<lparr>current_state = final_state (hd g), current_start = frame_of (hd g),
                   current_end = frame_of (last g),
                   current_aff = field (hd g) ''affordance_final'',
                   current_y = field (hd g) ''yield_to_final'',
                   current_l = field (hd g) ''lead_state_final''\<rparr>"
  define fresh where "fresh = \<lparr>current_state = final_state r, current_start = frame_of r,
                   current_end = frame_of r,
                   current_aff = field r ''affordance_final'',
                   current_y = field r ''yield_to_final'',
                   current_l = field r ''lead_state_final''\<rparr>"
  have step: "segment_states_loop p clip (Some C) seg_id segments (r # rs)
      = (if same_run final_state (last g) r
         then segment_states_loop p clip (Some (C\<lparr>current_end := frame_of r\<rparr>)) seg_id
                segments rs
         else segment_states_loop p clip (Some fresh) (Suc seg_id)
                (segments @ [close_state clip seg_id C]) rs)"
    using final_row_reads [OF r]
    by (simp add: py_int_def same_run_def klast C_def fresh_def)
  show ?case
  proof (cases "same_run final_state (last g) r")
    case True
    have g1: "g @ [r] \<noteq> []" by simp
    have s1: "successively (same_run final_state) (g @ [r])"
      using Cons.prems(2) True by (simp add: successively_snoc)
    have a1: "\<forall>x \<in> set ((g @ [r]) @ rs). final_row x"
      using Cons.prems(3) by simp
    have c1: "C\<lparr>current_end := frame_of r\<rparr>
        = \<lparr>current_state = final_state (hd (g @ [r])), current_start = frame_of (hd (g @ [r])),
                   current_end = frame_of (last (g @ [r])),
                   current_aff = field (hd (g @ [r])) ''affordance_final'',
                   current_y = field (hd (g @ [r])) ''yield_to_final'',
                   current_l = field (hd (g @ [r])) ''lead_state_final''\<rparr>"
      using Cons.prems(1) by (simp add: C_def)
    from Cons.IH [OF g1 s1 a1, of seg_id segments]
    show ?thesis
      unfolding C_def [symmetric] step c1 [symmetric] using True by simp
  next
    case False
    have a1: "\<forall>x \<in> set ([r] @ rs). final_row x"
      using Cons.prems(3) by simp
    have e: "List.enumerate seg_id (maximal_runs (same_run final_state) (g @ r # rs))
        = (seg_id, g) # List.enumerate (Suc seg_id) (maximal_runs (same_run final_state) (r # rs))"
      using maximal_runs_break [OF Cons.prems(1,2) False, of rs] by simp
    have cl: "close_state clip seg_id C = state_segment_of clip (seg_id, g)"
      by (simp add: close_state_def state_segment_of_def C_def)
    from Cons.IH [of "[r]" "Suc seg_id" "segments @ [state_segment_of clip (seg_id, g)]"] a1
    have "ebind (segment_states_loop p clip (Some fresh) (Suc seg_id)
            (segments @ [state_segment_of clip (seg_id, g)]) rs)
          (\<lambda>res. case res of (cur, seg_id', segments') \<Rightarrow>
             (case cur of
                None \<Rightarrow> Inr segments'
              | Some c \<Rightarrow> Inr (segments' @ [close_state clip seg_id' c])))
         = Inr ((segments @ [state_segment_of clip (seg_id, g)]) @ map (state_segment_of clip)
                  (List.enumerate (Suc seg_id) (maximal_runs (same_run final_state) (r # rs))))"
      by (simp add: fresh_def)
    then show ?thesis
      unfolding C_def [symmetric] step e cl using False by simp
  qed
qed

lemma segment_states_clip_runs:
  assumes "\<forall>r \<in> set clip_rows. final_row r"
  shows "segment_states_clip p segments (clip, clip_rows)
         = Inr (segments @ state_segments_of_clip clip clip_rows)"
proof -
  have fi: "\<forall>r \<in> set clip_rows. has_int r ''frame_index''"
    using assms by (simp add: final_row_def)
  define srt where "srt = sort_key frame_of clip_rows"
  have srt: "py_sorted (\<lambda>r. getitem r ''frame_index'') clip_rows = Inr srt"
    unfolding srt_def using fi by (rule py_sorted_frames)
  have ok: "\<forall>r \<in> set srt. final_row r"
    using assms by (simp add: srt_def)
  show ?thesis
  proof (cases srt)
    case Nil
    then show ?thesis
      using srt by (simp add: segment_states_clip_def state_segments_of_clip_def srt_def [symmetric])
  next
    case (Cons r rs)
    with ok have r: "final_row r" by simp
    have a1: "\<forall>x \<in> set ([r] @ rs). final_row x" using ok Cons by simp
    from segment_states_loop_runs [of "[r]" rs p clip 0 segments] a1
    show ?thesis
      using srt Cons final_row_reads [OF r]
      by (simp add: segment_states_clip_def state_segments_of_clip_def srt_def [symmetric]
          py_int_def)
  qed
qed

lemma segment_states_clips_concat:
  assumes "\<forall>g \<in> set groups. \<forall>r \<in> set (snd g). final_row r"
  shows "segment_states_clips p segments groups
         = Inr (segments @ concat (map (\<lambda>g. state_segments_of_clip (fst g) (snd g)) groups))"
  using assms
proof (induction groups arbitrary: segments)
  case Nil
  show ?case by simp
next
  case (Cons g groups)
  obtain clip clip_rows where g: "g = (clip, clip_rows)" by (cases g)
  from Cons.prems g have "\<forall>r \<in> set clip_rows. final_row r" by simp
  from segment_states_clip_runs [OF this, of p segments clip] Cons.IH Cons.prems g
  show ?case by simp
qed

section \<open>Grouping\<close>

lemma group_by_clip_snoc:
  "group_by_clip f by_clip (rs @ [r])
   = ebind (group_by_clip f by_clip rs) (\<lambda>b. ebind (f r) (\<lambda>c. Inr (setdefault_append b c r)))"
proof (induction rs arbitrary: by_clip)
  case Nil
  show ?case by (cases "f r") simp_all
next
  case (Cons x rs)
  then show ?case by (cases "f x") simp_all
qed

lemma setdefault_append_present:
  "c \<in> set ks \<Longrightarrow> distinct ks \<Longrightarrow>
   setdefault_append (map (\<lambda>k. (k, F k)) ks) c v
   = map (\<lambda>k. (k, if k = c then F k @ [v] else F k)) ks"
  by (induction ks) auto

lemma setdefault_append_absent:
  "c \<notin> set ks \<Longrightarrow>
   setdefault_append (map (\<lambda>k. (k, F k)) ks) c v = map (\<lambda>k. (k, F k)) ks @ [(c, [v])]"
  by (induction ks) auto

lemma group_by_clip_uniq:
  assumes "\<forall>r \<in> set rows. f r = Inr (k r)"
  shows "group_by_clip f [] rows
         = Inr (map (\<lambda>c. (c, filter (\<lambda>r. k r = c) rows)) (uniq (map k rows)))"
  using assms
proof (induction rows rule: rev_induct)
  case Nil
  show ?case by simp
next
  case (snoc r rows)
  then have ih: "group_by_clip f [] rows
      = Inr (map (\<lambda>c. (c, filter (\<lambda>r. k r = c) rows)) (uniq (map k rows)))"
    and fr: "f r = Inr (k r)" by simp_all
  show ?case
  proof (cases "k r \<in> set (map k rows)")
    case True
    then have "k r \<in> set (uniq (map k rows))" by simp
    from setdefault_append_present [OF this distinct_uniq, of "\<lambda>c. filter (\<lambda>r. k r = c) rows" r]
    show ?thesis
      using True fr by (simp add: group_by_clip_snoc ih uniq_snoc)
  next
    case False
    then have "k r \<notin> set (uniq (map k rows))" by simp
    moreover from False have "filter (\<lambda>x. k x = k r) rows = []"
      by (auto simp: filter_empty_conv image_iff)
    ultimately show ?thesis
      using setdefault_append_absent [of "k r" "uniq (map k rows)"
          "\<lambda>c. filter (\<lambda>r. k r = c) rows" r] False fr
      by (auto simp: group_by_clip_snoc ih uniq_snoc)
  qed
qed

lemma segment_states_runs:
  assumes "\<forall>r \<in> set rows. final_row r"
  shows "segment_states p rows
         = Inr (concat (map (\<lambda>c. state_segments_of_clip c (clip_rows_of c rows))
                  (uniq (map (\<lambda>r. field r ''clip'') rows))))"
proof -
  have "\<forall>r \<in> set rows. getitem r ''clip'' = Inr (field r ''clip'')"
    using assms by (simp add: final_row_def getitem_field)
  from group_by_clip_uniq [OF this]
  have g: "group_by_clip (\<lambda>r. getitem r ''clip'') [] rows
      = Inr (map (\<lambda>c. (c, clip_rows_of c rows)) (uniq (map (\<lambda>r. field r ''clip'') rows)))"
    by (simp add: clip_rows_of_def)
  have "\<forall>g \<in> set (map (\<lambda>c. (c, clip_rows_of c rows)) (uniq (map (\<lambda>r. field r ''clip'') rows))).
      \<forall>r \<in> set (snd g). final_row r"
    using assms by (auto simp: clip_rows_of_def)
  from segment_states_clips_concat [OF this, of p "[]"] g
  show ?thesis
    by (simp add: segment_states_def comp_def)
qed

section \<open>Claim on the segmenters\<close>

text \<open>
  C4: on rows with smoothed entries \<open>segment_clip\<close> returns the segments of the maximal
  runs of its input under "same smoothed triple and frame index larger by exactly 1", the
  segment of a run holding the frame index of its first row as start, that of its last
  row as end, and the smoothed labels of its first row; on
  rows with final entries \<open>segment_states\<close> returns, clip by clip, the segments of the
  maximal runs of the clip's rows sorted by frame index under "same state and frame index
  larger by exactly 1". The maximal runs of a list cut it into non-empty pieces such that
  neighbours inside a piece are linked and the last element of a piece is not linked to
  the first of the next: two consecutive frames share a segment if and only if their keys
  are equal and their frame indices differ by exactly 1, also where the key returns to
  that of an earlier segment.
\<close>

theorem C4_segmenters_cut_maximal_runs:
  assumes "\<forall>r \<in> set rows. smoothed_row r" and "\<forall>r \<in> set frows. final_row r"
  shows "segment_clip rows
           = Inr (map phase_segment_of (maximal_runs (same_run smoothed_key) rows)) \<and>
         segment_states int_of_str frows
           = Inr (concat (map (\<lambda>c. state_segments_of_clip c (clip_rows_of c frows))
                    (uniq (map (\<lambda>r. field r ''clip'') frows)))) \<and>
         concat (maximal_runs link xs) = xs \<and>
         (\<forall>g \<in> set (maximal_runs link xs). g \<noteq> [] \<and> successively link g) \<and>
         (\<forall>i. Suc i < length (maximal_runs link xs) \<longrightarrow>
            \<not> link (last (maximal_runs link xs ! i)) (hd (maximal_runs link xs ! Suc i)))"
  using segment_clip_runs [OF assms(1)] segment_states_runs [OF assms(2), of int_of_str]
    maximal_runs_chains [of _ link xs] maximal_runs_boundaries [of _ link xs]
  by simp

theorem C4_segmenters_gap_witness:
  "smoothed_row (smoothed_example 5 ''go'') \<and> smoothed_row (smoothed_example 7 ''go'') \<and>
   final_row (final_example 5 ''go'') \<and> final_row (final_example 7 ''go'') \<and>
   segment_clip [smoothed_example 5 ''go'', smoothed_example 7 ''go''] =
     Inr [\<lparr>seg_start = VInt 5, seg_end = VInt 5, seg_affordance = VStr ''go'',
            seg_yield_to = VStr ''none'', seg_lead_state = VStr ''none''\<rparr>,
          \<lparr>seg_start = VInt 7, seg_end = VInt 7, seg_affordance = VStr ''go'',
            seg_yield_to = VStr ''none'', seg_lead_state = VStr ''none''\<rparr>] \<and>
   map state_span (projr (segment_states (\<lambda>s. None)
       [final_example 5 ''go'', final_example 7 ''go''])) = [(0, 5, 5), (1, 7, 7)]"
proof -
  have s: "\<forall>r \<in> set [smoothed_example 5 ''go'', smoothed_example 7 ''go'']. smoothed_row r"
    by (simp add: smoothed_example_def with_smoothed_def example_row_def smoothed_row_def
        has_int_def is_int_def)
  have f: "\<forall>r \<in> set [final_example 5 ''go'', final_example 7 ''go'']. final_row r"
    by (simp add: final_example_def smoothed_example_def with_final_def with_smoothed_def
        example_row_def final_row_def has_int_def has_str_def is_int_def is_str_def)
  have run1: "segment_clip [smoothed_example 5 ''go'', smoothed_example 7 ''go''] =
     Inr [\<lparr>seg_start = VInt 5, seg_end = VInt 5, seg_affordance = VStr ''go'',
            seg_yield_to = VStr ''none'', seg_lead_state = VStr ''none''\<rparr>,
          \<lparr>seg_start = VInt 7, seg_end = VInt 7, seg_affordance = VStr ''go'',
            seg_yield_to = VStr ''none'', seg_lead_state = VStr ''none''\<rparr>]"
    by code_simp
  have run2: "map state_span (projr (segment_states (\<lambda>s. None)
       [final_example 5 ''go'', final_example 7 ''go''])) = [(0, 5, 5), (1, 7, 7)]"
    by code_simp
  from C4_segmenters_cut_maximal_runs [OF s f] s f run1 run2 show ?thesis
    by simp
qed

section \<open>Segments tile the frames of a clip\<close>

lemma chain_frames:
  "g \<noteq> [] \<Longrightarrow> successively (same_run key) g \<Longrightarrow>
   frame_of (hd g) \<le> frame_of (last g) \<and> map frame_of g = [frame_of (hd g)..frame_of (last g)]"
proof (induction g rule: induct_list012)
  case 1
  then show ?case by simp
next
  case (2 x)
  show ?case by simp
next
  case (3 x y g)
  from "3.prems" have xy: "frame_of y = frame_of x + 1"
    and s: "successively (same_run key) (y # g)"
    by (simp_all add: same_run_def)
  from "3.IH"(2) [OF _ s] have le: "frame_of y \<le> frame_of (last (y # g))"
    and m: "map frame_of (y # g) = [frame_of y..frame_of (last (y # g))]" by simp_all
  have "[frame_of x..frame_of (last (y # g))]
      = frame_of x # [frame_of x + 1..frame_of (last (y # g))]"
    using le xy by (subst upto_rec1) simp_all
  with m xy le show ?case by simp
qed

lemma sorted_wrt_heads:
  "\<forall>g \<in> set R. g \<noteq> [] \<Longrightarrow> sorted_wrt P (concat R) \<Longrightarrow> sorted_wrt P (map hd R)"
proof (induction R)
  case Nil
  show ?case by simp
next
  case (Cons g R)
  from Cons.prems have g: "g \<noteq> []" and s: "sorted_wrt P (concat R)"
    and c: "\<forall>x \<in> set g. \<forall>y \<in> set (concat R). P x y"
    by (simp_all add: sorted_wrt_append)
  have "hd h \<in> set (concat R)" if "h \<in> set R" for h
  proof -
    from that Cons.prems(1) have "h \<noteq> []" by simp
    then have "hd h \<in> set h" by simp
    with that show ?thesis by auto
  qed
  with c hd_in_set [OF g] have "\<forall>h \<in> set R. P (hd g) (hd h)" by blast
  with Cons.IH Cons.prems(1) s show ?case by simp
qed

lemma enumerate_map:
  "List.enumerate n (map f xs) = map (\<lambda>p. (fst p, f (snd p))) (List.enumerate n xs)"
  by (induction xs arbitrary: n) simp_all

lemma map_enumerate_ids: "map (\<lambda>p. int (fst p)) (List.enumerate 0 xs) = map int [0..<length xs]"
proof -
  have "map (\<lambda>p. int (fst p)) (List.enumerate 0 xs) = map int (map fst (List.enumerate 0 xs))"
    by (simp only: map_map comp_def)
  then show ?thesis by (simp only: map_fst_enumerate add_0)
qed

lemma map_enumerate_snd: "map (\<lambda>p. f (snd p)) (List.enumerate n xs) = map f xs"
proof -
  have "map (\<lambda>p. f (snd p)) (List.enumerate n xs) = map f (map snd (List.enumerate n xs))"
    by (simp only: map_map comp_def)
  then show ?thesis by (simp only: map_snd_enumerate)
qed

lemma runs_tile:
  assumes "sorted_wrt (<) (map frame_of xs)"
  shows "segments_tile
           (map (\<lambda>p. (int (fst p), frame_of (hd (snd p)), frame_of (last (snd p))))
              (List.enumerate 0 (maximal_runs (same_run key) xs)))
           (map frame_of xs)"
proof -
  define R where "R = maximal_runs (same_run key) xs"
  define segs where "segs = map (\<lambda>p. (int (fst p), frame_of (hd (snd p)), frame_of (last (snd p))))
              (List.enumerate 0 R)"
  have ch: "g \<noteq> [] \<and> successively (same_run key) g" if "g \<in> set R" for g
    using that maximal_runs_chains unfolding R_def by blast
  have ids: "map fst segs = map int [0..<length segs]"
    using map_enumerate_ids [of R] by (simp add: segs_def comp_def)
  have snds: "map snd (List.enumerate 0 R) = R" by simp
  have starts: "map (\<lambda>s. fst (snd s)) segs = map frame_of (map hd R)"
    using map_enumerate_snd [of "\<lambda>g. frame_of (hd g)" 0 R]
    by (simp add: segs_def comp_def)
  have "sorted_wrt (\<lambda>x y. frame_of x < frame_of y) (concat R)"
    using assms by (simp add: R_def sorted_wrt_map)
  then have "sorted_wrt (\<lambda>x y. frame_of x < frame_of y) (map hd R)"
    using ch by (intro sorted_wrt_heads) auto
  then have inc: "sorted_wrt (<) (map (\<lambda>s. fst (snd s)) segs)"
    by (simp add: starts sorted_wrt_map)
  have le: "\<forall>s \<in> set segs. fst (snd s) \<le> snd (snd s)"
  proof
    fix s assume "s \<in> set segs"
    then obtain p where p: "p \<in> set (List.enumerate 0 R)"
      and s: "s = (int (fst p), frame_of (hd (snd p)), frame_of (last (snd p)))"
      by (auto simp: segs_def)
    from p have "snd p \<in> set R"
      by (metis snds image_eqI set_map)
    with ch chain_frames [of "snd p" key] s show "fst (snd s) \<le> snd (snd s)" by simp
  qed
  have "map (\<lambda>s. [fst (snd s)..snd (snd s)]) segs
      = map (\<lambda>g. [frame_of (hd g)..frame_of (last g)]) R"
    using map_enumerate_snd [of "\<lambda>g. [frame_of (hd g)..frame_of (last g)]" 0 R]
    by (simp add: segs_def comp_def)
  then have "concat (map (\<lambda>s. [fst (snd s)..snd (snd s)]) segs)
      = concat (map (\<lambda>g. [frame_of (hd g)..frame_of (last g)]) R)"
    by simp
  also have "\<dots> = concat (map (map frame_of) R)"
    using ch chain_frames [of _ key] by (intro arg_cong [of _ _ concat] map_cong) auto
  also have "\<dots> = map frame_of (concat R)"
    by (simp add: map_concat)
  also have "\<dots> = map frame_of xs"
    by (simp add: R_def)
  finally have cover: "concat (map (\<lambda>s. [fst (snd s)..snd (snd s)]) segs) = map frame_of xs" .
  show ?thesis
    using ids inc le cover
    unfolding segments_tile_def segs_def [symmetric] R_def [symmetric] by simp
qed

lemma sorted_frames_strict:
  assumes "distinct (map frame_of rows)"
  shows "sorted_wrt (<) (map frame_of (sort_key frame_of rows))"
proof -
  have "mset (map frame_of (sort_key frame_of rows)) = mset (map frame_of rows)"
    by simp
  then have "distinct (map frame_of (sort_key frame_of rows))"
    using assms by (metis mset_eq_imp_distinct_iff)
  moreover have "sorted (map frame_of (sort_key frame_of rows))"
    by (rule sorted_sort_key)
  ultimately show ?thesis
    by (simp add: strict_sorted_iff)
qed

lemma tile_sorted_runs:
  assumes "distinct (map frame_of rows)"
  shows "segments_tile
           (map (\<lambda>p. (int (fst p), frame_of (hd (snd p)), frame_of (last (snd p))))
              (List.enumerate 0 (maximal_runs (same_run key) (sort_key frame_of rows))))
           (map frame_of rows)"
proof -
  from runs_tile [OF sorted_frames_strict [OF assms], of key]
  have "segments_tile
           (map (\<lambda>p. (int (fst p), frame_of (hd (snd p)), frame_of (last (snd p))))
              (List.enumerate 0 (maximal_runs (same_run key) (sort_key frame_of rows))))
           (map frame_of (sort_key frame_of rows))" .
  moreover have "mset (map frame_of (sort_key frame_of rows)) = mset (map frame_of rows)"
    by simp
  ultimately show ?thesis
    unfolding segments_tile_def by simp
qed

lemma segment_main_clip_spans:
  assumes "\<forall>r \<in> set clip_rows. smoothed_row r"
  shows "\<exists>out. segment_main_clip clip clip_rows = Inr out \<and>
           map phase_span out
             = map (\<lambda>p. (int (fst p), frame_of (hd (snd p)), frame_of (last (snd p))))
                 (List.enumerate 0
                    (maximal_runs (same_run smoothed_key) (sort_key frame_of clip_rows)))"
proof -
  define srt where "srt = sort_key frame_of clip_rows"
  define R where "R = maximal_runs (same_run smoothed_key) srt"
  have fi: "\<forall>r \<in> set clip_rows. has_int r ''frame_index''"
    using assms by (simp add: smoothed_row_def)
  have ok: "\<forall>r \<in> set srt. smoothed_row r"
    using assms by (simp add: srt_def)
  have run: "segment_main_clip clip clip_rows
      = Inr (map (phase_csv_row clip) (List.enumerate 0 (map phase_segment_of R)))"
    using py_sorted_frames [OF fi] segment_clip_runs [OF ok]
    by (simp add: segment_main_clip_def srt_def R_def)
  have span: "phase_span (phase_csv_row clip (i, phase_segment_of g))
      = (int i, frame_of (hd g), frame_of (last g))" if "g \<in> set R" for i g
  proof -
    from that maximal_runs_chains [of g "same_run smoothed_key" srt] have "g \<noteq> []"
      by (simp add: R_def)
    moreover have "set g \<subseteq> set srt"
      using that concat_maximal_runs [of "same_run smoothed_key" srt]
      by (metis R_def Sup_upper UN_I set_concat subsetI)
    ultimately have "hd g \<in> set srt" "last g \<in> set srt"
      using hd_in_set [of g] last_in_set [of g] by blast+
    then have "smoothed_row (hd g)" "smoothed_row (last g)"
      using ok by blast+
    then show ?thesis
      using smoothed_row_reads(3)
      by (simp add: phase_span_def phase_csv_row_def phase_segment_of_def close_phase_def
          field_def int_of_def split: prod.splits)
  qed
  have "map phase_span (map (phase_csv_row clip) (List.enumerate 0 (map phase_segment_of R)))
      = map (\<lambda>p. (int (fst p), frame_of (hd (snd p)), frame_of (last (snd p))))
          (List.enumerate 0 R)"
  proof -
    have "\<forall>p \<in> set (List.enumerate 0 R). snd p \<in> set R"
      by (metis enumerate_eq_zip in_set_zipE prod.collapse)
    then show ?thesis
      using span by (auto simp: enumerate_map)
  qed
  with run show ?thesis
    unfolding R_def srt_def by blast
qed

lemma filter_concat_blocks:
  "distinct cs \<Longrightarrow> \<forall>c' \<in> set cs. \<forall>s \<in> set (B c'). tag s = c' \<Longrightarrow>
   filter (\<lambda>s. tag s = c) (concat (map B cs)) = (if c \<in> set cs then B c else [])"
proof (induction cs)
  case Nil
  show ?case by simp
next
  case (Cons a cs)
  from Cons.prems have a: "\<forall>s \<in> set (B a). tag s = a" by simp
  have fa: "filter (\<lambda>s. tag s = c) (B a) = (if c = a then B a else [])"
    using a by (auto simp: filter_empty_conv filter_id_conv)
  from Cons.IH Cons.prems have "filter (\<lambda>s. tag s = c) (concat (map B cs))
      = (if c \<in> set cs then B c else [])" by simp
  with fa Cons.prems(1) show ?case by auto
qed

lemma state_segments_clip_tag:
  "s \<in> set (state_segments_of_clip c rs) \<Longrightarrow> sg_clip s = c"
  by (auto simp: state_segments_of_clip_def state_segment_of_def)

lemma segment_states_clip_view:
  assumes "\<forall>r \<in> set rows. final_row r"
  shows "\<exists>segs. segment_states p rows = Inr segs \<and>
           (\<forall>c. filter (\<lambda>s. sg_clip s = c) segs
                  = state_segments_of_clip c (clip_rows_of c rows))"
proof -
  define cs where "cs = uniq (map (\<lambda>r. field r ''clip'') rows)"
  define segs where "segs = concat (map (\<lambda>c. state_segments_of_clip c (clip_rows_of c rows)) cs)"
  have run: "segment_states p rows = Inr segs"
    using segment_states_runs [OF assms] by (simp add: segs_def cs_def)
  have "filter (\<lambda>s. sg_clip s = c) segs = state_segments_of_clip c (clip_rows_of c rows)" for c
  proof -
    have "filter (\<lambda>s. sg_clip s = c) segs
        = (if c \<in> set cs then state_segments_of_clip c (clip_rows_of c rows) else [])"
      unfolding segs_def
      by (rule filter_concat_blocks) (auto simp: cs_def state_segments_clip_tag)
    moreover have "clip_rows_of c rows = []" if "c \<notin> set cs"
      using that by (auto simp: cs_def clip_rows_of_def filter_empty_conv)
    ultimately show ?thesis
      by (auto simp: state_segments_of_clip_def)
  qed
  with run show ?thesis by blast
qed

lemma state_spans:
  "map state_span (state_segments_of_clip c rs)
   = map (\<lambda>p. (int (fst p), frame_of (hd (snd p)), frame_of (last (snd p))))
       (List.enumerate 0 (maximal_runs (same_run final_state) (sort_key frame_of rs)))"
  by (simp add: state_segments_of_clip_def state_span_def state_segment_of_def
      split: prod.splits)

section \<open>Claim on segment ids and frame coverage\<close>

text \<open>
  C7: for a clip whose rows have pairwise distinct frame indices, the rows the phase
  stage writes for the clip (\<open>segment_main_clip\<close>) and the state segments of the clip
  (those of \<open>segment_states\<close> that carry the clip) have the segment ids 0 to n - 1 in
  emission order, starts that increase with the ids, start at most end in every
  segment, and inclusive frame ranges that together are exactly the multiset of the
  clip's frame indices.
\<close>

theorem C7_segments_tile_clip_frames:
  assumes "\<forall>r \<in> set clip_rows. smoothed_row r" and "\<forall>r \<in> set rows. final_row r"
  shows "(\<exists>out. segment_main_clip clip clip_rows = Inr out \<and>
            (distinct (map frame_of clip_rows) \<longrightarrow>
               segments_tile (map phase_span out) (map frame_of clip_rows))) \<and>
         (\<exists>segs. segment_states int_of_str rows = Inr segs \<and>
            (\<forall>c. distinct (map frame_of (clip_rows_of c rows)) \<longrightarrow>
               segments_tile (map state_span (filter (\<lambda>s. sg_clip s = c) segs))
                 (map frame_of (clip_rows_of c rows))))"
proof -
  from segment_main_clip_spans [OF assms(1), of clip] obtain out where
    out: "segment_main_clip clip clip_rows = Inr out"
    and sp: "map phase_span out
             = map (\<lambda>p. (int (fst p), frame_of (hd (snd p)), frame_of (last (snd p))))
                 (List.enumerate 0
                    (maximal_runs (same_run smoothed_key) (sort_key frame_of clip_rows)))"
    by blast
  have phase: "distinct (map frame_of clip_rows) \<longrightarrow>
      segments_tile (map phase_span out) (map frame_of clip_rows)"
    unfolding sp using tile_sorted_runs [of clip_rows smoothed_key] by blast
  from segment_states_clip_view [OF assms(2), of int_of_str] obtain segs where
    segs: "segment_states int_of_str rows = Inr segs"
    and view: "\<forall>c. filter (\<lambda>s. sg_clip s = c) segs
                  = state_segments_of_clip c (clip_rows_of c rows)"
    by blast
  have state: "\<forall>c. distinct (map frame_of (clip_rows_of c rows)) \<longrightarrow>
      segments_tile (map state_span (filter (\<lambda>s. sg_clip s = c) segs))
        (map frame_of (clip_rows_of c rows))"
    using view tile_sorted_runs [of _ final_state] by (simp add: state_spans)
  from out phase segs state show ?thesis by blast
qed

theorem C7_segments_tile_witness:
  "smoothed_row (smoothed_example 7 ''go'') \<and> smoothed_row (smoothed_example 5 ''wait'') \<and>
   smoothed_row (smoothed_example 6 ''go'') \<and> final_row (final_example 7 ''go'') \<and>
   final_row (final_example 5 ''wait'') \<and> final_row (final_example 6 ''go'') \<and>
   distinct (map frame_of
     [smoothed_example 7 ''go'', smoothed_example 5 ''wait'', smoothed_example 6 ''go'']) \<and>
   distinct (map frame_of (clip_rows_of (VStr ''clip0'')
     [final_example 7 ''go'', final_example 5 ''wait'', final_example 6 ''go''])) \<and>
   segments_tile [(0, 5, 5), (1, 6, 7)] [7, 5, 6] \<and>
   map phase_span (projr (segment_main_clip (VStr ''clip0'')
     [smoothed_example 7 ''go'', smoothed_example 5 ''wait'', smoothed_example 6 ''go'']))
     = [(0, 5, 5), (1, 6, 7)] \<and>
   map state_span (filter (\<lambda>s. sg_clip s = VStr ''clip0'') (projr (segment_states (\<lambda>s. None)
     [final_example 7 ''go'', final_example 5 ''wait'', final_example 6 ''go''])))
     = [(0, 5, 5), (1, 6, 7)]"
proof -
  define srows where "srows =
    [smoothed_example 7 ''go'', smoothed_example 5 ''wait'', smoothed_example 6 ''go'']"
  define frows where "frows =
    [final_example 7 ''go'', final_example 5 ''wait'', final_example 6 ''go'']"
  have s: "\<forall>r \<in> set srows. smoothed_row r"
    by (simp add: srows_def smoothed_example_def with_smoothed_def example_row_def
        smoothed_row_def has_int_def is_int_def)
  have f: "\<forall>r \<in> set frows. final_row r"
    by (simp add: frows_def final_example_def smoothed_example_def with_final_def
        with_smoothed_def example_row_def final_row_def has_int_def has_str_def is_int_def
        is_str_def)
  have fr: "map frame_of srows = [7, 5, 6]"
    by (simp add: srows_def smoothed_example_def with_smoothed_def example_row_def
        frame_of_def field_def int_of_def)
  have cr: "clip_rows_of (VStr ''clip0'') frows = frows"
    by (simp add: frows_def clip_rows_of_def final_example_def smoothed_example_def
        with_final_def with_smoothed_def example_row_def field_def)
  have ff: "map frame_of frows = [7, 5, 6]"
    by (simp add: frows_def final_example_def smoothed_example_def with_final_def
        with_smoothed_def example_row_def frame_of_def field_def int_of_def)
  have run1: "segment_main_clip (VStr ''clip0'') srows
      = Inr (projr (segment_main_clip (VStr ''clip0'') srows))"
    unfolding srows_def by code_simp
  have sp1: "map phase_span (projr (segment_main_clip (VStr ''clip0'') srows))
      = [(0, 5, 5), (1, 6, 7)]"
    unfolding srows_def by code_simp
  have run2: "segment_states (\<lambda>s. None) frows = Inr (projr (segment_states (\<lambda>s. None) frows))"
    unfolding frows_def by code_simp
  have sp2: "map state_span (filter (\<lambda>s. sg_clip s = VStr ''clip0'')
      (projr (segment_states (\<lambda>s. None) frows))) = [(0, 5, 5), (1, 6, 7)]"
    unfolding frows_def by code_simp
  from C7_segments_tile_clip_frames [OF s f, of "VStr ''clip0''" "\<lambda>s. None"] run1 fr sp1
  have tile: "segments_tile [(0, 5, 5), (1, 6, 7)] [7, 5, 6]"
    by auto
  from s f fr cr ff sp1 sp2 tile show ?thesis
    unfolding srows_def frows_def by simp
qed

section \<open>Claim on empty input tables\<close>

lemma segment_main_zero_rows_writes_header_only:
  assumes "fs OUTPUT_FILENAME = Some f" and "csv_rows f = []"
  shows "segment_main int_of_str fs =
           (fs(SEGMENTS_FILENAME \<mapsto> \<lparr>csv_fieldnames = segment_fieldnames, csv_rows = []\<rparr>), None)"
  using assms by (simp add: segment_main_def open_w_def)

text \<open>
  C8 (as stated, refuted): the state and planner stage on a directory whose two input
  tables have a header and no rows. It raises nothing and ends regularly (and writes no
  table); the claim wants an error from every stage.
\<close>

theorem C8_build_zero_rows_counterexample:
  "csv_rows (the (empty_tables INPUT_FILENAME)) = [] \<and>
   csv_rows (the (empty_tables OUTPUT_FILENAME)) = [] \<and>
   snd (build_main (\<lambda>s. None) empty_tables) = None"
  by (simp add: build_main_def empty_tables_def INPUT_FILENAME_def OUTPUT_FILENAME_def
      reinject_go_short_def segment_states_def add_prev_next_def)

text \<open>
  C8 (amended): on an input table with zero rows the smoothing stage raises RuntimeError
  and leaves the directory as it was (no output table); the state and planner stage
  raises nothing for the zero rows of the smoothed table (only what loading the raw table
  raises, if that raises) and also leaves the directory as it was: none of its three
  output tables is written, so no empty table is emitted.
\<close>

theorem C8_zero_rows_smoothing_fatal_build_silent:
  "(fs INPUT_FILENAME = Some f \<and> csv_rows f = [] \<longrightarrow>
      smoothing_main int_of_str fs = (fs, Some RuntimeError)) \<and>
   (fs INPUT_FILENAME = Some raw_file \<and> fs OUTPUT_FILENAME = Some g \<and> csv_rows g = [] \<longrightarrow>
      build_main int_of_str fs =
        (fs, case load_raw_world int_of_str Map.empty (csv_rows raw_file) of
               Inl e \<Rightarrow> Some e
             | Inr raw_map \<Rightarrow> None))"
  by (auto simp: smoothing_main_def build_main_def reinject_go_short_def segment_states_def
      add_prev_next_def split: sum.splits)

theorem C8_zero_rows_witness:
  "empty_smoothed_table OUTPUT_FILENAME
     = Some \<lparr>csv_fieldnames = raw_fieldnames, csv_rows = []\<rparr> \<and>
   empty_tables INPUT_FILENAME = Some \<lparr>csv_fieldnames = raw_fieldnames, csv_rows = []\<rparr> \<and>
   smoothing_main (\<lambda>s. None) empty_tables = (empty_tables, Some RuntimeError) \<and>
   build_main (\<lambda>s. None) empty_smoothed_table = (empty_smoothed_table, None)"
proof -
  have a: "empty_tables INPUT_FILENAME = Some \<lparr>csv_fieldnames = raw_fieldnames, csv_rows = []\<rparr>"
    by (simp add: empty_tables_def INPUT_FILENAME_def OUTPUT_FILENAME_def)
  have b: "empty_smoothed_table INPUT_FILENAME
      = Some \<lparr>csv_fieldnames = raw_fieldnames, csv_rows = [example_row 11 ''go'']\<rparr>"
    by (simp add: empty_smoothed_table_def INPUT_FILENAME_def OUTPUT_FILENAME_def)
  have c: "empty_smoothed_table OUTPUT_FILENAME
      = Some \<lparr>csv_fieldnames = raw_fieldnames, csv_rows = []\<rparr>"
    by (simp add: empty_smoothed_table_def)
  have l: "load_raw_world (\<lambda>s. None) Map.empty [example_row 11 ''go'']
      = Inr [(''clip0'', 11) \<mapsto> [(''affordance'', VStr ''go''), (''yield_to'', VStr ''none''),
          (''lead_state'', VStr ''none'')]]"
    by (simp add: example_row_def getitem_def py_strip_def py_int_def strip_def isspace_def)
  from C8_zero_rows_smoothing_fatal_build_silent
    [of empty_tables "\<lparr>csv_fieldnames = raw_fieldnames, csv_rows = []\<rparr>" "\<lambda>s. None"] a
  have s: "smoothing_main (\<lambda>s. None) empty_tables = (empty_tables, Some RuntimeError)"
    by simp
  from C8_zero_rows_smoothing_fatal_build_silent
    [of empty_smoothed_table _ "\<lambda>s. None"
      "\<lparr>csv_fieldnames = raw_fieldnames, csv_rows = [example_row 11 ''go'']\<rparr>"
      "\<lparr>csv_fieldnames = raw_fieldnames, csv_rows = []\<rparr>"] b c l
  have "build_main (\<lambda>s. None) empty_smoothed_table = (empty_smoothed_table, None)"
    by simp
  with a c s show ?thesis by simp
qed

end
